theory Spec2Isabelle
  imports
    Main
    "HOL-Library.Char_ord"
    "HOL-Library.List_Lexorder"
begin

section \<open>Characters\<close>

text \<open>
  A C++ \<open>char\<close> is one byte, as a HOL \<^typ>\<open>char\<close> is; \<open>std::string\<close> is \<^typ>\<open>string\<close>.
  The characters the source names in its literals:
\<close>

abbreviation NL :: char where "NL \<equiv> CHR 0x0A"      \<comment> \<open>\<open>'\n'\<close>\<close>
abbreviation CR :: char where "CR \<equiv> CHR 0x0D"      \<comment> \<open>\<open>'\r'\<close>\<close>
abbreviation TAB :: char where "TAB \<equiv> CHR 0x09"    \<comment> \<open>\<open>'\t'\<close>\<close>
abbreviation SQUOTE :: char where "SQUOTE \<equiv> CHR 0x27"  \<comment> \<open>the single quote\<close>
abbreviation DQUOTE :: char where "DQUOTE \<equiv> CHR 0x22"  \<comment> \<open>the double quote\<close>
abbreviation BSLASH :: char where "BSLASH \<equiv> CHR 0x5C"  \<comment> \<open>the backslash\<close>

text \<open>
  \<open>std::isspace\<close> in the default C locale: space, and the five controls
  \<open>\t \n \v \f \r\<close> (9 to 13).
\<close>

definition isspace :: "char \<Rightarrow> bool" where
  "isspace c = (c = CHR '' '' \<or> (9 \<le> (of_char c :: nat) \<and> (of_char c :: nat) \<le> 13))"

section \<open>\<open>detail::Unescape\<close> and \<open>detail::Escape\<close>\<close>

text \<open>
  The \<open>switch\<close> of \<open>Unescape\<close> on the character after a backslash: what is appended
  to \<open>res\<close>.
\<close>

definition unescape_switch :: "char \<Rightarrow> string" where
  "unescape_switch c =
     (if c = CHR ''n'' \<or> c = NL then [NL]
      else if c = CHR ''r'' then [CR]
      else if c = SQUOTE \<or> c = DQUOTE \<or> c = BSLASH then [c]
      else [BSLASH, c])"

text \<open>
  The \<open>while (it != str.end())\<close> loop of \<open>Unescape\<close>; the first argument is the text
  from \<open>it\<close> on, the second is \<open>res\<close>. A backslash that is the last character is
  copied as it is (\<open>it != str.end()\<close> fails).
\<close>

fun Unescape_loop :: "string \<Rightarrow> string \<Rightarrow> string" where
  "Unescape_loop [] res = res"
| "Unescape_loop [c] res = res @ [c]"
| "Unescape_loop (c # d # rest) res =
     (if c = BSLASH then Unescape_loop rest (res @ unescape_switch d)
      else Unescape_loop (d # rest) (res @ [c]))"

text \<open>
  The predicate of the \<open>find_if\<close> over the reversed result: the search stops at the
  first character (from the end) that is negative as an \<open>int\<close> (a byte from 128 on,
  where \<open>char\<close> is signed) or is not a space.
\<close>

definition trim_stop :: "char \<Rightarrow> bool" where
  "trim_stop ch = (128 \<le> (of_char ch :: nat) \<or> \<not> isspace ch)"

text \<open>\<open>res.erase(find_if(res.rbegin(), res.rend(), ...).base(), res.end())\<close>\<close>

definition trim_trailing :: "string \<Rightarrow> string" where
  "trim_trailing res = rev (dropWhile (\<lambda>ch. \<not> trim_stop ch) (rev res))"

definition Unescape :: "string \<Rightarrow> string" where
  "Unescape str = trim_trailing (Unescape_loop str [])"

text \<open>The \<open>switch\<close> of \<open>Escape\<close>: what is appended to \<open>res\<close> for one character.\<close>

definition escape_switch :: "char \<Rightarrow> string" where
  "escape_switch c =
     (if c = NL then [BSLASH, CHR ''n'']
      else if c = CR then [BSLASH, CHR ''r'']
      else if c = SQUOTE \<or> c = DQUOTE \<or> c = BSLASH then [BSLASH, c]
      else [c])"

fun Escape_loop :: "string \<Rightarrow> string \<Rightarrow> string" where
  "Escape_loop [] res = res"
| "Escape_loop (c # rest) res = Escape_loop rest (res @ escape_switch c)"

definition Escape :: "string \<Rightarrow> string" where
  "Escape str = Escape_loop str []"

section \<open>Errors\<close>

text \<open>
  \<open>Error\<close> is the class \<open>alt::config::Error\<close>: the message \<open>what()\<close>, then \<open>position\<close>,
  \<open>line\<close> and \<open>column\<close> (all three default to 0). The other constructors are what the
  code can raise without an \<open>Error\<close>: the standard library's \<open>std::invalid_argument\<close> and
  \<open>std::out_of_range\<close> (from \<open>std::stod\<close>) and \<open>std::length_error\<close> (from the
  \<open>std::string (count, ch)\<close> constructor), and \<open>Undefined\<close> where C++ gives the
  operation no defined behaviour (a read past the end of the buffer, an iterator moved
  beyond \<open>end()\<close>, a member read through a null pointer).
\<close>

datatype exn =
    Error string nat nat nat
  | InvalidArgument
  | OutOfRange
  | LengthError
  | Undefined

abbreviation Error0 :: "string \<Rightarrow> exn" where
  "Error0 err \<equiv> Error err 0 0 0"

section \<open>The tree model: \<open>Node\<close>\<close>

datatype Type = NONE | SCALAR | LIST | DICT

text \<open>
  A \<open>Node\<close> is its \<open>type\<close> and its payload \<open>val\<close>, an object of class \<open>Value\<close> (the
  payload of a None node), \<open>ValueScalar\<close>, \<open>ValueList\<close> or \<open>ValueDict\<close>. Every constructor
  and \<open>operator=\<close> set the two together, so the model has one constructor per payload
  class and \<open>type\<close> is read off it. \<open>Node::List\<close> is \<open>std::vector<Node*>\<close> and
  \<open>Node::Dict\<close> is \<open>std::map<std::string, Node*>\<close>; a \<open>Node*\<close> is a \<^typ>\<open>'a option\<close>,
  \<^term>\<open>None\<close> being the null pointer.
\<close>

datatype Node =
    Value
  | ValueScalar string
  | ValueList "Node option list"
  | ValueDict "(string \<times> Node option) list"

subsection \<open>\<open>std::map\<close> with \<open>std::string\<close> keys\<close>

text \<open>
  A \<open>std::map\<close> holds one entry per key and iterates in the order of \<open>operator<\<close> on
  \<open>std::string\<close>, which compares the bytes as unsigned values, a proper prefix first:
  the order \<^term>\<open>(<) :: string \<Rightarrow> string \<Rightarrow> bool\<close> of \<open>HOL-Library.List_Lexorder\<close> over
  \<open>HOL-Library.Char_ord\<close>. The model is the list of entries in iteration order;
  \<open>map_inv\<close> says that the keys ascend strictly. \<open>find\<close> is \<^const>\<open>map_of\<close>, \<open>size\<close> is
  \<^const>\<open>length\<close>.
\<close>

type_synonym 'v cmap = "(string \<times> 'v) list"

definition map_inv :: "'v cmap \<Rightarrow> bool" where
  "map_inv m = sorted_wrt (<) (map fst m)"

text \<open>\<open>m.insert({k, v})\<close>: no effect when the key is present.\<close>

fun map_insert :: "string \<Rightarrow> 'v \<Rightarrow> 'v cmap \<Rightarrow> 'v cmap" where
  "map_insert k v [] = [(k, v)]"
| "map_insert k v ((k', v') # m) =
     (if k < k' then (k, v) # (k', v') # m
      else if k = k' then (k', v') # m
      else (k', v') # map_insert k v m)"

text \<open>\<open>m[k] = v\<close>: the entry is created when the key is absent, overwritten otherwise.\<close>

fun map_assign :: "string \<Rightarrow> 'v \<Rightarrow> 'v cmap \<Rightarrow> 'v cmap" where
  "map_assign k v [] = [(k, v)]"
| "map_assign k v ((k', v') # m) =
     (if k < k' then (k, v) # (k', v') # m
      else if k = k' then (k', v) # m
      else (k', v') # map_assign k v m)"

subsection \<open>Type tests\<close>

text \<open>
  The type tests take \<open>this\<close>, which the code lets be null (\<open>if (!this) return ...\<close>).
\<close>

fun GetType :: "Node option \<Rightarrow> Type" where
  "GetType None = NONE"
| "GetType (Some Value) = NONE"
| "GetType (Some (ValueScalar val)) = SCALAR"
| "GetType (Some (ValueList val)) = LIST"
| "GetType (Some (ValueDict val)) = DICT"

fun IsNone :: "Node option \<Rightarrow> bool" where
  "IsNone None = True"
| "IsNone (Some n) = (GetType (Some n) = NONE)"

fun IsScalar :: "Node option \<Rightarrow> bool" where
  "IsScalar None = False"
| "IsScalar (Some n) = (GetType (Some n) = SCALAR)"

fun IsList :: "Node option \<Rightarrow> bool" where
  "IsList None = False"
| "IsList (Some n) = (GetType (Some n) = LIST)"

fun IsDict :: "Node option \<Rightarrow> bool" where
  "IsDict None = False"
| "IsDict (Some n) = (GetType (Some n) = DICT)"

subsection \<open>\<open>std::stod\<close>\<close>

text \<open>
  \<open>std::stod (str, &idx)\<close> is the C library's \<open>strtod\<close>: it skips leading white space,
  converts the longest prefix of the rest that has the form of a floating-point number
  and stores in \<open>idx\<close> how many characters it consumed. It throws
  \<open>std::invalid_argument\<close> when no prefix has that form and \<open>std::out_of_range\<close> when the
  value is out of the range of a \<open>double\<close>. The forms (C11, 7.22.1.3), after an optional
  sign: decimal digits with an optional point and an optional exponent; \<open>0x\<close> and
  hexadecimal digits with an optional point and an optional binary exponent; \<open>inf\<close> or
  \<open>infinity\<close>; \<open>nan\<close> or \<open>nan(...)\<close>, letters in either case.

  The model computes which prefix is consumed. The \<open>double\<close> that the prefix denotes is
  left to a parameter \<open>conv\<close> (binary floating point is not modelled): \<open>conv text\<close> is the
  value, or \<^term>\<open>None\<close> when it is out of range.
\<close>

definition isdigit :: "char \<Rightarrow> bool" where
  "isdigit c = (CHR ''0'' \<le> c \<and> c \<le> CHR ''9'')"

definition isxdigit :: "char \<Rightarrow> bool" where
  "isxdigit c = (isdigit c \<or> (CHR ''a'' \<le> c \<and> c \<le> CHR ''f'') \<or> (CHR ''A'' \<le> c \<and> c \<le> CHR ''F''))"

definition isalpha :: "char \<Rightarrow> bool" where
  "isalpha c = ((CHR ''a'' \<le> c \<and> c \<le> CHR ''z'') \<or> (CHR ''A'' \<le> c \<and> c \<le> CHR ''Z''))"

definition tolower :: "char \<Rightarrow> char" where
  "tolower c = (if CHR ''A'' \<le> c \<and> c \<le> CHR ''Z'' then char_of (of_char c + (32::nat)) else c)"

text \<open>
  Digits with an optional point, at least one digit in all: the length, or \<^term>\<open>None\<close>.
\<close>

definition mantissa_length :: "(char \<Rightarrow> bool) \<Rightarrow> string \<Rightarrow> nat option" where
  "mantissa_length dig s =
     (let i = length (takeWhile dig s) in
      case drop i s of
        c # u \<Rightarrow>
          if c = CHR ''.'' then
            (let f = length (takeWhile dig u) in if i + f = 0 then None else Some (i + 1 + f))
          else if i = 0 then None else Some i
      | [] \<Rightarrow> if i = 0 then None else Some i)"

text \<open>
  An exponent part at the head of \<open>s\<close>: the marker (\<open>e\<close> or \<open>p\<close>, either case), an
  optional sign, at least one decimal digit. Its length, 0 when there is none.
\<close>

definition exponent_length :: "char \<Rightarrow> string \<Rightarrow> nat" where
  "exponent_length marker s =
     (case s of
        [] \<Rightarrow> 0
      | c # t \<Rightarrow>
          if tolower c = marker then
            (let sg = (case t of [] \<Rightarrow> 0 | c' # _ \<Rightarrow> if c' = CHR ''+'' \<or> c' = CHR ''-'' then 1 else (0::nat));
                 n = length (takeWhile isdigit (drop sg t))
             in if n = 0 then 0 else 1 + sg + n)
          else 0)"

definition number_length :: "string \<Rightarrow> nat option" where
  "number_length s =
     (let hex = (if map tolower (take 2 s) = ''0x'' then mantissa_length isxdigit (drop 2 s) else None) in
      case hex of
        Some m \<Rightarrow> Some (2 + m + exponent_length (CHR ''p'') (drop (2 + m) s))
      | None \<Rightarrow>
         (case mantissa_length isdigit s of
            Some m \<Rightarrow> Some (m + exponent_length (CHR ''e'') (drop m s))
          | None \<Rightarrow>
              if map tolower (take 8 s) = ''infinity'' then Some 8
              else if map tolower (take 3 s) = ''inf'' then Some 3
              else if map tolower (take 3 s) = ''nan'' then
                (case drop 3 s of
                   c # u \<Rightarrow>
                     if c = CHR ''('' then
                       (let n = length (takeWhile (\<lambda>c. isdigit c \<or> isalpha c \<or> c = CHR ''_'') u) in
                        case drop n u of
                          c' # _ \<Rightarrow> if c' = CHR '')'' then Some (3 + 1 + n + 1) else Some 3
                        | [] \<Rightarrow> Some 3)
                     else Some 3
                 | [] \<Rightarrow> Some 3)
              else None))"

definition stod :: "(string \<Rightarrow> 'd option) \<Rightarrow> string \<Rightarrow> exn + 'd \<times> nat" where
  "stod conv str =
     (let ws = length (takeWhile isspace str);
          t = drop ws str;
          sg = (case t of [] \<Rightarrow> 0 | c # _ \<Rightarrow> if c = CHR ''+'' \<or> c = CHR ''-'' then 1 else (0::nat))
      in case number_length (drop sg t) of
           None \<Rightarrow> Inl InvalidArgument
         | Some n \<Rightarrow>
            (case conv (take (sg + n) t) of
               None \<Rightarrow> Inl OutOfRange
             | Some result \<Rightarrow> Inr (result, ws + sg + n)))"

subsection \<open>Conversions\<close>

text \<open>
  The virtual functions of \<open>Value\<close> and their overrides. \<open>ValueList\<close> and \<open>ValueDict\<close>
  override none of the scalar conversions, so they inherit those of \<open>Value\<close>.
\<close>

fun Value_ToBool :: "Node \<Rightarrow> exn + bool" where
  "Value_ToBool (ValueScalar val) =
     (if val = ''true'' \<or> val = ''yes'' then Inr True
      else if val = ''false'' \<or> val = ''no'' then Inr False
      else Inl (Error0 ''Not a bool''))"
| "Value_ToBool _ = Inl (Error0 ''Invalid cast'')"

text \<open>
  \<open>ValueScalar::ToNumber ()\<close>: the \<open>catch\<close> turns \<open>std::invalid_argument\<close> (from
  \<open>std::stod\<close>, or thrown when text is left after the number) into \<open>Error\<close>; a
  \<open>std::out_of_range\<close> is not caught.
\<close>

fun Value_ToNumber :: "(string \<Rightarrow> 'd option) \<Rightarrow> Node \<Rightarrow> exn + 'd" where
  "Value_ToNumber conv (ValueScalar val) =
     (case (case stod conv val of
              Inl e \<Rightarrow> Inl e
            | Inr (result, idx) \<Rightarrow> if idx < length val then Inl InvalidArgument else Inr result) of
        Inl InvalidArgument \<Rightarrow> Inl (Error0 ''Not a number'')
      | r \<Rightarrow> r)"
| "Value_ToNumber conv _ = Inl (Error0 ''Invalid cast'')"

fun Value_ToString :: "Node \<Rightarrow> exn + string" where
  "Value_ToString (ValueScalar val) = Inr val"
| "Value_ToString _ = Inl (Error0 ''Invalid cast'')"

fun Value_ToList :: "Node \<Rightarrow> exn + Node option list" where
  "Value_ToList (ValueList val) = Inr val"
| "Value_ToList _ = Inl (Error0 ''Invalid cast'')"

fun Value_ToDict :: "Node \<Rightarrow> exn + Node option cmap" where
  "Value_ToDict (ValueDict val) = Inr val"
| "Value_ToDict _ = Inl (Error0 ''Invalid cast'')"

text \<open>
  The conversions with a default: \<open>Value\<close> returns the default, \<open>ValueScalar\<close> overrides
  each with a call of the strict conversion (\<open>return ToNumber ();\<close>).
\<close>

fun Value_ToBool_default :: "Node \<Rightarrow> bool \<Rightarrow> exn + bool" where
  "Value_ToBool_default (ValueScalar val) def = Value_ToBool (ValueScalar val)"
| "Value_ToBool_default _ def = Inr def"

fun Value_ToNumber_default :: "(string \<Rightarrow> 'd option) \<Rightarrow> Node \<Rightarrow> 'd \<Rightarrow> exn + 'd" where
  "Value_ToNumber_default conv (ValueScalar val) def = Value_ToNumber conv (ValueScalar val)"
| "Value_ToNumber_default conv _ def = Inr def"

fun Value_ToString_default :: "Node \<Rightarrow> string \<Rightarrow> exn + string" where
  "Value_ToString_default (ValueScalar val) def = Value_ToString (ValueScalar val)"
| "Value_ToString_default _ def = Inr def"

text \<open>
  The member functions of \<open>Node\<close>, on \<open>this\<close>. The strict ones read \<open>this->val\<close> first
  (\<open>if (!val)\<close>; a constructed node always has a payload), which is undefined on a null
  \<open>this\<close>; the defaulted ones test \<open>this\<close> first.
\<close>

fun ToBool :: "Node option \<Rightarrow> exn + bool" where
  "ToBool None = Inl Undefined"
| "ToBool (Some n) = Value_ToBool n"

fun ToBool_default :: "Node option \<Rightarrow> bool \<Rightarrow> exn + bool" where
  "ToBool_default None def = Inr def"
| "ToBool_default (Some n) def = Value_ToBool_default n def"

fun ToNumber :: "(string \<Rightarrow> 'd option) \<Rightarrow> Node option \<Rightarrow> exn + 'd" where
  "ToNumber conv None = Inl Undefined"
| "ToNumber conv (Some n) = Value_ToNumber conv n"

fun ToNumber_default :: "(string \<Rightarrow> 'd option) \<Rightarrow> Node option \<Rightarrow> 'd \<Rightarrow> exn + 'd" where
  "ToNumber_default conv None def = Inr def"
| "ToNumber_default conv (Some n) def = Value_ToNumber_default conv n def"

fun ToString :: "Node option \<Rightarrow> exn + string" where
  "ToString None = Inl Undefined"
| "ToString (Some n) = Value_ToString n"

fun ToString_default :: "Node option \<Rightarrow> string \<Rightarrow> exn + string" where
  "ToString_default None def = Inr def"
| "ToString_default (Some n) def = Value_ToString_default n def"

fun ToList :: "Node option \<Rightarrow> exn + Node option list" where
  "ToList None = Inl Undefined"
| "ToList (Some n) = Value_ToList n"

fun ToDict :: "Node option \<Rightarrow> exn + Node option cmap" where
  "ToDict None = Inl Undefined"
| "ToDict (Some n) = Value_ToDict n"

subsection \<open>Copying\<close>

text \<open>
  \<open>Value::Copy\<close> and its overrides. The loops of \<open>ValueList::Copy\<close> and
  \<open>ValueDict::Copy\<close> take the elements still to visit and \<open>newVal->val\<close>; an element that
  is null or a None node is passed over (\<open>continue\<close>), any other is copied by the copy
  constructor, which copies its payload in turn.
\<close>

fun Copy :: "Node \<Rightarrow> Node"
  and Copy_list :: "Node option list \<Rightarrow> Node option list \<Rightarrow> Node option list"
  and Copy_dict :: "Node option cmap \<Rightarrow> Node option cmap \<Rightarrow> Node option cmap"
where
  "Copy Value = Value"
| "Copy (ValueScalar val) = ValueScalar val"
| "Copy (ValueList val) = ValueList (Copy_list val [])"
| "Copy (ValueDict val) = ValueDict (Copy_dict val [])"
| "Copy_list [] newVal = newVal"
| "Copy_list (None # rest) newVal = Copy_list rest newVal"
| "Copy_list (Some cur # rest) newVal =
     (if IsNone (Some cur) then Copy_list rest newVal
      else Copy_list rest (newVal @ [Some (Copy cur)]))"
| "Copy_dict [] newVal = newVal"
| "Copy_dict ((key, None) # rest) newVal = Copy_dict rest newVal"
| "Copy_dict ((key, Some cur) # rest) newVal =
     (if IsNone (Some cur) then Copy_dict rest newVal
      else Copy_dict rest (map_assign key (Some (Copy cur)) newVal))"

subsection \<open>Indexing\<close>

text \<open>
  \<open>operator[]\<close> returns a \<open>Node&\<close>. The reference designates either the function-local
  \<open>static Node none\<close> of \<open>ValueList::Get\<close>, one object shared by every call, or a child
  of the indexed node. The state these operations work on is that static and the indexed
  node; \<open>Node ()\<close> constructs the static as a None node.
\<close>

datatype ref = StaticNone | ListElem nat | DictEntry string

record world =
  none :: Node
  node :: Node

definition world0 :: "Node \<Rightarrow> world" where
  "world0 n = \<lparr>none = Value, node = n\<rparr>"

text \<open>
  The node a reference designates; \<^term>\<open>None\<close> for a reference bound through a null
  pointer (\<open>*result->second\<close> with a null \<open>second\<close>), which the code's own
  \<open>if (!this)\<close> tests expect.
\<close>

fun deref :: "world \<Rightarrow> ref \<Rightarrow> Node option" where
  "deref w StaticNone = Some (none w)"
| "deref w (ListElem idx) =
     (case node w of
        ValueList val \<Rightarrow> if idx < length val then val ! idx else None
      | _ \<Rightarrow> None)"
| "deref w (DictEntry key) =
     (case node w of
        ValueDict val \<Rightarrow> (case map_of val key of Some p \<Rightarrow> p | None \<Rightarrow> None)
      | _ \<Rightarrow> None)"

text \<open>
  \<open>Value::Get (std::size_t)\<close> and the override of \<open>ValueList\<close>, under
  \<open>Node::operator[] (std::size_t)\<close>. Nothing is written.
\<close>

fun Get_idx :: "nat \<Rightarrow> world \<Rightarrow> exn + ref \<times> world" where
  "Get_idx idx w =
     (case node w of
        ValueList val \<Rightarrow>
          if idx \<ge> length val then Inr (StaticNone, w)
          else (case val ! idx of
                  None \<Rightarrow> Inr (StaticNone, w)
                | Some result \<Rightarrow> Inr (ListElem idx, w))
      | _ \<Rightarrow> Inl (Error0 ''Not a list''))"

text \<open>
  \<open>Value::Get (const std::string&)\<close> and the override of \<open>ValueDict\<close>, under
  \<open>Node::operator[] (const std::string&)\<close>: a key that \<open>find\<close> does not find gets a new
  \<open>Node ()\<close> by \<open>val[key] = newNode\<close>.
\<close>

fun Get_key :: "string \<Rightarrow> world \<Rightarrow> exn + ref \<times> world" where
  "Get_key key w =
     (case node w of
        ValueDict val \<Rightarrow>
          (case map_of val key of
             None \<Rightarrow> Inr (DictEntry key, w\<lparr>node := ValueDict (map_assign key (Some Value) val)\<rparr>)
           | Some result \<Rightarrow> Inr (DictEntry key, w))
      | _ \<Rightarrow> Inl (Error0 ''Not a dict''))"

text \<open>
  \<open>Node::operator=\<close> applied through a reference: the designated node takes the type of
  \<open>that\<close> and a copy of its payload. Through a null reference it is undefined.
\<close>

fun assign :: "ref \<Rightarrow> Node \<Rightarrow> world \<Rightarrow> exn + world" where
  "assign StaticNone that w = Inr (w\<lparr>none := Copy that\<rparr>)"
| "assign (ListElem idx) that w =
     (case node w of
        ValueList val \<Rightarrow>
          if idx < length val \<and> val ! idx \<noteq> None
          then Inr (w\<lparr>node := ValueList (val[idx := Some (Copy that)])\<rparr>)
          else Inl Undefined
      | _ \<Rightarrow> Inl Undefined)"
| "assign (DictEntry key) that w =
     (case node w of
        ValueDict val \<Rightarrow>
          (case map_of val key of
             Some (Some old) \<Rightarrow> Inr (w\<lparr>node := ValueDict (map_assign key (Some (Copy that)) val)\<rparr>)
           | _ \<Rightarrow> Inl Undefined)
      | _ \<Rightarrow> Inl Undefined)"

section \<open>The parser\<close>

subsection \<open>Tokens and the scanner state\<close>

text \<open>
  \<open>Token::Type\<close>; the scalar token is \<open>SCALAR_TOKEN\<close> here, \<open>SCALAR\<close> being the node type.
\<close>

datatype TokenType = ARRAY_START | ARRAY_END | DICT_START | DICT_END | KEY | SCALAR_TOKEN

record Token =
  tok_type :: TokenType
  tok_value :: string
  tok_pos :: nat
  tok_line :: nat
  tok_col :: nat

text \<open>
  The members of \<open>Parser\<close>: the buffer, \<open>readPos\<close>, \<open>line\<close>, \<open>column\<close> (all \<open>std::size_t\<close>,
  modelled unbounded: each is at most the length of the buffer plus one) and the
  \<open>std::deque\<close> of tokens.
\<close>

record parser =
  buffer :: string
  readPos :: nat
  line :: nat
  column :: nat
  tokens :: "Token list"

text \<open>
  \<open>Peek (offset)\<close> reads \<open>buffer.data ()[readPos + offset]\<close> without a check; a read at or
  beyond the end of the buffer is \<^term>\<open>None\<close> here, and \<open>Undefined\<close> where the code
  makes it. \<open>Get ()\<close> and \<open>Skip ()\<close> advance \<open>column\<close>, start a new line after a
  \<open>'\n'\<close> and advance \<open>readPos\<close>; \<open>Skip\<close> is only ever called with its default \<open>n = 1\<close>.
\<close>

definition Unread :: "parser \<Rightarrow> nat" where
  "Unread s = length (buffer s) - readPos s"

definition Peek :: "parser \<Rightarrow> nat \<Rightarrow> char option" where
  "Peek s offset =
     (if readPos s + offset < length (buffer s) then Some (buffer s ! (readPos s + offset)) else None)"

definition Get :: "parser \<Rightarrow> exn + char \<times> parser" where
  "Get s =
     (case Peek s 0 of
        None \<Rightarrow> Inl Undefined
      | Some c \<Rightarrow>
          Inr (c, if c = NL then s\<lparr>readPos := readPos s + 1, line := line s + 1, column := 0\<rparr>
                  else s\<lparr>readPos := readPos s + 1, column := column s + 1\<rparr>))"

definition Skip :: "parser \<Rightarrow> exn + parser" where
  "Skip s =
     (case Peek s 0 of
        None \<Rightarrow> Inl Undefined
      | Some c \<Rightarrow>
          Inr (if c = NL then s\<lparr>readPos := readPos s + 1, line := line s + 1, column := 0\<rparr>
               else s\<lparr>readPos := readPos s + 1, column := column s + 1\<rparr>))"

text \<open>Each of them consumes one character and leaves the buffer as it is.\<close>

lemma Skip_Unread: "Skip s = Inr s' \<Longrightarrow> Unread s' < Unread s \<and> buffer s' = buffer s"
  by (auto simp: Skip_def Peek_def Unread_def split: option.splits if_splits)

lemma Get_Unread: "Get s = Inr (c, s') \<Longrightarrow> Unread s' < Unread s \<and> buffer s' = buffer s"
  by (auto simp: Get_def Peek_def Unread_def split: option.splits if_splits)

subsection \<open>\<open>SkipToNextToken\<close>\<close>

text \<open>
  The inner loops of the comment branch: \<open>skip_comment\<close> is
  \<open>while (Unread () > 0 && Peek () != '\n' && Peek () != '#' && Peek () != '"') Skip ();\<close>
  and \<open>skip_quoted\<close> is the loop after a double quote.
\<close>

function skip_comment :: "parser \<Rightarrow> exn + parser" where
  "skip_comment s =
     (if Unread s > 0 \<and> Peek s 0 \<noteq> Some NL \<and> Peek s 0 \<noteq> Some (CHR ''#'') \<and> Peek s 0 \<noteq> Some DQUOTE
      then (case Skip s of Inl e \<Rightarrow> Inl e | Inr s' \<Rightarrow> skip_comment s')
      else Inr s)"
  by pat_completeness auto
termination
proof (relation "measure Unread", goal_cases)
  case 1
  show ?case by simp
next
  case (2 s s')
  from Skip_Unread [OF 2(2)] show ?case by simp
qed

declare skip_comment.simps [simp del]

function skip_quoted :: "parser \<Rightarrow> exn + parser" where
  "skip_quoted s =
     (if Unread s > 0 \<and> Peek s 0 \<noteq> Some NL \<and> Peek s 0 \<noteq> Some DQUOTE
      then (case Skip s of Inl e \<Rightarrow> Inl e | Inr s' \<Rightarrow> skip_quoted s')
      else Inr s)"
  by pat_completeness auto
termination
proof (relation "measure Unread", goal_cases)
  case 1
  show ?case by simp
next
  case (2 s s')
  from Skip_Unread [OF 2(2)] show ?case by simp
qed

declare skip_quoted.simps [simp del]

text \<open>Neither loop moves \<open>readPos\<close> backwards.\<close>

lemma skip_comment_Unread: "skip_comment s = Inr s' \<Longrightarrow> Unread s' \<le> Unread s \<and> buffer s' = buffer s"
proof (induction s rule: skip_comment.induct)
  case (1 s)
  let ?go = "Unread s > 0 \<and> Peek s 0 \<noteq> Some NL \<and> Peek s 0 \<noteq> Some (CHR ''#'') \<and> Peek s 0 \<noteq> Some DQUOTE"
  show ?case
  proof (cases ?go)
    case True
    with "1.prems" obtain s1 where sk: "Skip s = Inr s1" and rec: "skip_comment s1 = Inr s'"
      by (subst (asm) skip_comment.simps) (auto split: sum.splits)
    from "1.IH" [OF True sk rec] Skip_Unread [OF sk] show ?thesis by simp
  next
    case False
    with "1.prems" have "s' = s" by (subst (asm) skip_comment.simps) auto
    then show ?thesis by simp
  qed
qed

lemma skip_quoted_Unread: "skip_quoted s = Inr s' \<Longrightarrow> Unread s' \<le> Unread s \<and> buffer s' = buffer s"
proof (induction s rule: skip_quoted.induct)
  case (1 s)
  let ?go = "Unread s > 0 \<and> Peek s 0 \<noteq> Some NL \<and> Peek s 0 \<noteq> Some DQUOTE"
  show ?case
  proof (cases ?go)
    case True
    with "1.prems" obtain s1 where sk: "Skip s = Inr s1" and rec: "skip_quoted s1 = Inr s'"
      by (subst (asm) skip_quoted.simps) (auto split: sum.splits)
    from "1.IH" [OF True sk rec] Skip_Unread [OF sk] show ?thesis by simp
  next
    case False
    with "1.prems" have "s' = s" by (subst (asm) skip_quoted.simps) auto
    then show ?thesis by simp
  qed
qed

text \<open>
  The branch \<open>else if (Peek () == '#')\<close>: the \<open>'#'\<close> is skipped, then the comment
  text; \<open>if (Peek () == '"')\<close> reads the buffer without testing \<open>Unread ()\<close>; at the
  end, one more character is skipped if there is one.
\<close>

definition skip_one_comment :: "parser \<Rightarrow> exn + parser" where
  "skip_one_comment s =
     (case Skip s of
        Inl e \<Rightarrow> Inl e
      | Inr s1 \<Rightarrow>
         (case skip_comment s1 of
            Inl e \<Rightarrow> Inl e
          | Inr s2 \<Rightarrow>
             (case Peek s2 0 of
                None \<Rightarrow> Inl Undefined
              | Some c \<Rightarrow>
                 (case (if c = DQUOTE
                        then (case Skip s2 of Inl e \<Rightarrow> Inl e | Inr s3 \<Rightarrow> skip_quoted s3)
                        else Inr s2) of
                    Inl e \<Rightarrow> Inl e
                  | Inr s4 \<Rightarrow> if Unread s4 > 0 then Skip s4 else Inr s4))))"

lemma skip_one_comment_Unread:
  "skip_one_comment s = Inr s' \<Longrightarrow> Unread s' < Unread s \<and> buffer s' = buffer s"
  by (auto simp: skip_one_comment_def split: sum.splits option.splits if_splits
      dest!: Skip_Unread skip_comment_Unread skip_quoted_Unread)

function SkipToNextToken :: "parser \<Rightarrow> exn + parser" where
  "SkipToNextToken s =
     (if Unread s > 0 then
        if Peek s 0 = Some (CHR '' '') \<or> Peek s 0 = Some NL \<or> Peek s 0 = Some CR
           \<or> Peek s 0 = Some TAB \<or> Peek s 0 = Some (CHR '','')
        then (case Skip s of Inl e \<Rightarrow> Inl e | Inr s' \<Rightarrow> SkipToNextToken s')
        else if Peek s 0 = Some (CHR ''#'')
        then (case skip_one_comment s of Inl e \<Rightarrow> Inl e | Inr s' \<Rightarrow> SkipToNextToken s')
        else Inr s
      else Inr s)"
  by pat_completeness auto
termination
proof (relation "measure Unread", goal_cases)
  case 1
  show ?case by simp
next
  case (2 s s')
  from Skip_Unread [OF 2(3)] show ?case by simp
next
  case (3 s s')
  from skip_one_comment_Unread [OF 3(4)] show ?case by simp
qed

declare SkipToNextToken.simps [simp del]


text \<open>
  Where \<open>SkipToNextToken\<close> stops with input left, the next character is none of those
  it skips.
\<close>

lemma SkipToNextToken_Unread:
  "SkipToNextToken s = Inr s' \<Longrightarrow>
     Unread s' \<le> Unread s \<and> buffer s' = buffer s
     \<and> (Unread s' > 0 \<longrightarrow> Peek s' 0 \<noteq> Some NL \<and> Peek s' 0 \<noteq> Some (CHR '','') \<and> Peek s' 0 \<noteq> Some (CHR ''#''))"
proof (induction s rule: SkipToNextToken.induct)
  case (1 s)
  let ?sep = "Peek s 0 = Some (CHR '' '') \<or> Peek s 0 = Some NL \<or> Peek s 0 = Some CR
           \<or> Peek s 0 = Some TAB \<or> Peek s 0 = Some (CHR '','')"
  show ?case
  proof (cases "Unread s > 0")
    case False
    with "1.prems" have "s' = s" by (subst (asm) SkipToNextToken.simps) simp
    with False show ?thesis by simp
  next
    case more: True
    show ?thesis
    proof (cases ?sep)
      case True
      with more "1.prems" obtain s1 where sk: "Skip s = Inr s1" and rec: "SkipToNextToken s1 = Inr s'"
        by (subst (asm) SkipToNextToken.simps) (auto split: sum.splits)
      from "1.IH"(1) [OF more True sk rec] Skip_Unread [OF sk] show ?thesis by simp
    next
      case nosep: False
      show ?thesis
      proof (cases "Peek s 0 = Some (CHR ''#'')")
        case True
        with more nosep "1.prems" obtain s1 where sk: "skip_one_comment s = Inr s1"
          and rec: "SkipToNextToken s1 = Inr s'"
          by (subst (asm) SkipToNextToken.simps) (auto split: sum.splits)
        from "1.IH"(2) [OF more nosep True sk rec] skip_one_comment_Unread [OF sk]
        show ?thesis by simp
      next
        case False
        with more nosep "1.prems" have "s' = s"
          by (subst (asm) SkipToNextToken.simps) auto
        with more nosep False show ?thesis by simp
      qed
    qed
  qed
qed

subsection \<open>\<open>Tokenize\<close>\<close>

text \<open>
  The loop that reads a quoted string after its opening quote \<open>start\<close>:
  \<open>while (Unread () > 1 && (Peek () == '\\' || Peek (1) != start))\<close>.
\<close>

function read_quoted :: "char \<Rightarrow> parser \<Rightarrow> string \<Rightarrow> exn + parser \<times> string" where
  "read_quoted start s val =
     (if Unread s > 1 \<and> (Peek s 0 = Some BSLASH \<or> Peek s 1 \<noteq> Some start) then
        if Peek s 0 = Some NL \<or> Peek s 0 = Some CR then
          (case Get s of
             Inl e \<Rightarrow> Inl e
           | Inr (c, s1) \<Rightarrow>
              (case (if c = CR \<and> Peek s1 0 = Some NL then Skip s1 else Inr s1) of
                 Inl e \<Rightarrow> Inl e
               | Inr s2 \<Rightarrow> read_quoted start s2 (val @ [NL])))
        else
          (case Get s of
             Inl e \<Rightarrow> Inl e
           | Inr (c, s1) \<Rightarrow> read_quoted start s1 (val @ [c]))
      else Inr (s, val))"
  by pat_completeness auto
termination
proof (relation "measure (\<lambda>(start, s, val). Unread s)", goal_cases)
  case 1
  show ?case by simp
next
  case (2 start s val x c s1 s2)
  from 2(3,4) have g: "Get s = Inr (c, s1)" by simp
  from 2(5) have "Unread s2 \<le> Unread s1"
    by (auto split: if_splits dest: Skip_Unread)
  with Get_Unread [OF g] show ?case by simp
next
  case (3 start s val x c s1)
  from 3(3,4) have g: "Get s = Inr (c, s1)" by simp
  with Get_Unread [OF g] show ?case by simp
qed

declare read_quoted.simps [simp del]


lemma read_quoted_Unread:
  "read_quoted start s val = Inr (s', val') \<Longrightarrow> Unread s' \<le> Unread s \<and> buffer s' = buffer s"
proof (induction start s val rule: read_quoted.induct)
  case (1 start s val)
  let ?go = "Unread s > 1 \<and> (Peek s 0 = Some BSLASH \<or> Peek s 1 \<noteq> Some start)"
  let ?nl = "Peek s 0 = Some NL \<or> Peek s 0 = Some CR"
  show ?case
  proof (cases ?go)
    case False
    with "1.prems" have "s' = s" by (subst (asm) read_quoted.simps) auto
    then show ?thesis by simp
  next
    case go: True
    show ?thesis
    proof (cases ?nl)
      case True
      with go "1.prems" obtain c s1 s2 where g: "Get s = Inr (c, s1)"
        and sk: "(if c = CR \<and> Peek s1 0 = Some NL then Skip s1 else Inr s1) = Inr s2"
        and rec: "read_quoted start s2 (val @ [NL]) = Inr (s', val')"
        by (subst (asm) read_quoted.simps) (auto split: sum.splits prod.splits)
      from sk have "Unread s2 \<le> Unread s1 \<and> buffer s2 = buffer s1"
        by (auto split: if_splits dest: Skip_Unread)
      with "1.IH"(1) [OF go True g refl sk rec] Get_Unread [OF g] show ?thesis by simp
    next
      case False
      with go "1.prems" obtain c s1 where g: "Get s = Inr (c, s1)"
        and rec: "read_quoted start s1 (val @ [c]) = Inr (s', val')"
        by (subst (asm) read_quoted.simps) (auto split: sum.splits prod.splits)
      with "1.IH"(2) [OF go False g refl rec] Get_Unread [OF g] show ?thesis by simp
    qed
  qed
qed

text \<open>The loop that reads an unquoted scalar.\<close>

function read_unquoted :: "parser \<Rightarrow> string \<Rightarrow> exn + parser \<times> string" where
  "read_unquoted s val =
     (if Unread s > 0 \<and> Peek s 0 \<noteq> Some NL \<and> Peek s 0 \<noteq> Some (CHR '':'')
         \<and> Peek s 0 \<noteq> Some (CHR '','') \<and> Peek s 0 \<noteq> Some (CHR '']'')
         \<and> Peek s 0 \<noteq> Some (CHR ''}'') \<and> Peek s 0 \<noteq> Some (CHR ''#'')
      then (case Get s of
              Inl e \<Rightarrow> Inl e
            | Inr (c, s1) \<Rightarrow> read_unquoted s1 (val @ [c]))
      else Inr (s, val))"
  by pat_completeness auto
termination
proof (relation "measure (\<lambda>(s, val). Unread s)", goal_cases)
  case 1
  show ?case by simp
next
  case (2 s val x c s1)
  from 2(2,3) have g: "Get s = Inr (c, s1)" by simp
  with Get_Unread [OF g] show ?case by simp
qed

declare read_unquoted.simps [simp del]

lemma read_unquoted_Unread:
  "read_unquoted s val = Inr (s', val') \<Longrightarrow> Unread s' \<le> Unread s \<and> buffer s' = buffer s"
proof (induction s val rule: read_unquoted.induct)
  case (1 s val)
  let ?go = "Unread s > 0 \<and> Peek s 0 \<noteq> Some NL \<and> Peek s 0 \<noteq> Some (CHR '':'')
         \<and> Peek s 0 \<noteq> Some (CHR '','') \<and> Peek s 0 \<noteq> Some (CHR '']'')
         \<and> Peek s 0 \<noteq> Some (CHR ''}'') \<and> Peek s 0 \<noteq> Some (CHR ''#'')"
  show ?case
  proof (cases ?go)
    case False
    with "1.prems" have "s' = s" by (subst (asm) read_unquoted.simps) auto
    then show ?thesis by simp
  next
    case True
    with "1.prems" obtain c s1 where g: "Get s = Inr (c, s1)"
      and rec: "read_unquoted s1 (val @ [c]) = Inr (s', val')"
      by (subst (asm) read_unquoted.simps) (auto split: sum.splits prod.splits)
    with "1.IH" [OF True g refl rec] Get_Unread [OF g] show ?thesis by simp
  qed
qed


lemma read_unquoted_progress:
  assumes "read_unquoted s val = Inr (s', val')"
    and "Unread s > 0 \<and> Peek s 0 \<noteq> Some NL \<and> Peek s 0 \<noteq> Some (CHR '':'')
         \<and> Peek s 0 \<noteq> Some (CHR '','') \<and> Peek s 0 \<noteq> Some (CHR '']'')
         \<and> Peek s 0 \<noteq> Some (CHR ''}'') \<and> Peek s 0 \<noteq> Some (CHR ''#'')"
  shows "Unread s' < Unread s"
proof -
  from assms obtain c s1 where g: "Get s = Inr (c, s1)"
    and rec: "read_unquoted s1 (val @ [c]) = Inr (s', val')"
    by (subst (asm) read_unquoted.simps) (auto split: sum.splits prod.splits)
  from read_unquoted_Unread [OF rec] Get_Unread [OF g] show ?thesis by simp
qed

text \<open>\<open>tokens.push_back ({type, value, readPos, line, column})\<close>\<close>

definition push_token :: "TokenType \<Rightarrow> string \<Rightarrow> parser \<Rightarrow> parser" where
  "push_token t v s =
     s\<lparr>tokens := tokens s @
          [\<lparr>tok_type = t, tok_value = v, tok_pos = readPos s, tok_line = line s, tok_col = column s\<rparr>]\<rparr>"

text \<open>
  The branch for a quoted scalar: \<open>if (Peek () != start)\<close> reads the buffer without
  testing \<open>Unread ()\<close>; the final \<open>Skip ()\<close> passes over the closing quote.
\<close>

definition read_quoted_scalar :: "parser \<Rightarrow> exn + parser \<times> string" where
  "read_quoted_scalar s =
     (case Get s of
        Inl e \<Rightarrow> Inl e
      | Inr (start, s1) \<Rightarrow>
         (case Peek s1 0 of
            None \<Rightarrow> Inl Undefined
          | Some c \<Rightarrow>
             (case (if c \<noteq> start then
                      (case read_quoted start s1 [] of
                         Inl e \<Rightarrow> Inl e
                       | Inr (s2, val) \<Rightarrow>
                          (case (if Unread s2 > 0
                                 then (case Get s2 of Inl e \<Rightarrow> Inl e | Inr (c', s3) \<Rightarrow> Inr (s3, val @ [c']))
                                 else Inr (s2, val)) of
                             Inl e \<Rightarrow> Inl e
                           | Inr (s4, val') \<Rightarrow>
                               if Unread s4 = 0
                               then Inl (Error ''Unexpected end of file'' (readPos s4) (line s4) (column s4))
                               else Inr (s4, val')))
                    else Inr (s1, [])) of
                Inl e \<Rightarrow> Inl e
              | Inr (s5, val) \<Rightarrow>
                 (case Skip s5 of Inl e \<Rightarrow> Inl e | Inr s6 \<Rightarrow> Inr (s6, val)))))"

text \<open>
  After the raw text of a scalar is read: \<open>Unescape\<close>, the token (a key when a colon
  follows), and the separator after it.
\<close>

definition finish_scalar :: "parser \<Rightarrow> string \<Rightarrow> exn + parser" where
  "finish_scalar s raw =
     (let val = Unescape raw;
          s1 = (if Unread s > 0 \<and> Peek s 0 = Some (CHR '':'')
                then push_token KEY val s else push_token SCALAR_TOKEN val s)
      in if Unread s1 > 0 \<and> (Peek s1 0 = Some (CHR '':'') \<or> Peek s1 0 = Some (CHR '',''))
         then Skip s1 else Inr s1)"

text \<open>One round of the loop of \<open>Tokenize\<close>, after \<open>SkipToNextToken\<close>.\<close>

definition scan_token :: "parser \<Rightarrow> exn + parser" where
  "scan_token s =
     (if Peek s 0 = Some (CHR ''['') then
        (case Skip s of Inl e \<Rightarrow> Inl e | Inr s1 \<Rightarrow> Inr (push_token ARRAY_START [] s1))
      else if Peek s 0 = Some (CHR '']'') then
        (case Skip s of Inl e \<Rightarrow> Inl e | Inr s1 \<Rightarrow> Inr (push_token ARRAY_END [] s1))
      else if Peek s 0 = Some (CHR ''{'') then
        (case Skip s of Inl e \<Rightarrow> Inl e | Inr s1 \<Rightarrow> Inr (push_token DICT_START [] s1))
      else if Peek s 0 = Some (CHR ''}'') then
        (case Skip s of Inl e \<Rightarrow> Inl e | Inr s1 \<Rightarrow> Inr (push_token DICT_END [] s1))
      else
        (case (if Peek s 0 = Some SQUOTE \<or> Peek s 0 = Some DQUOTE
               then read_quoted_scalar s else read_unquoted s []) of
           Inl e \<Rightarrow> Inl e
         | Inr (s1, raw) \<Rightarrow> finish_scalar s1 raw))"

text \<open>
  Every round of the loop of \<open>Tokenize\<close> consumes at least one character, which is why
  the loop ends.
\<close>

lemma push_token_frame [simp]:
  "Unread (push_token t v s) = Unread s" "Peek (push_token t v s) n = Peek s n"
  "buffer (push_token t v s) = buffer s"
  by (simp_all add: push_token_def Unread_def Peek_def)

lemma read_quoted_scalar_Unread:
  "read_quoted_scalar s = Inr (s', val) \<Longrightarrow> Unread s' < Unread s"
  by (auto simp: read_quoted_scalar_def split: sum.splits prod.splits option.splits if_splits
      dest!: Get_Unread Skip_Unread read_quoted_Unread)

lemma finish_scalar_Unread:
  "finish_scalar s raw = Inr s' \<Longrightarrow>
     Unread s' \<le> Unread s \<and> (Unread s > 0 \<and> Peek s 0 = Some (CHR '':'') \<longrightarrow> Unread s' < Unread s)"
  by (auto simp: finish_scalar_def Let_def split: if_splits dest!: Skip_Unread)

lemma scan_token_Unread:
  assumes "scan_token s = Inr s'"
    and "Unread s > 0" and "Peek s 0 \<noteq> Some NL" and "Peek s 0 \<noteq> Some (CHR '','')"
    and "Peek s 0 \<noteq> Some (CHR ''#'')"
  shows "Unread s' < Unread s"
proof -
  consider (bracket) "Peek s 0 = Some (CHR ''['') \<or> Peek s 0 = Some (CHR '']'')
                      \<or> Peek s 0 = Some (CHR ''{'') \<or> Peek s 0 = Some (CHR ''}'')"
    | (quoted) "\<not> (Peek s 0 = Some (CHR ''['') \<or> Peek s 0 = Some (CHR '']'')
                      \<or> Peek s 0 = Some (CHR ''{'') \<or> Peek s 0 = Some (CHR ''}''))"
        "Peek s 0 = Some SQUOTE \<or> Peek s 0 = Some DQUOTE"
    | (plain) "\<not> (Peek s 0 = Some (CHR ''['') \<or> Peek s 0 = Some (CHR '']'')
                      \<or> Peek s 0 = Some (CHR ''{'') \<or> Peek s 0 = Some (CHR ''}''))"
        "\<not> (Peek s 0 = Some SQUOTE \<or> Peek s 0 = Some DQUOTE)"
    by blast
  then show ?thesis
  proof cases
    case bracket
    with assms(1) obtain s1 where "Skip s = Inr s1" and "Unread s' = Unread s1"
      by (auto simp: scan_token_def split: sum.splits if_splits)
    with Skip_Unread [of s s1] show ?thesis by simp
  next
    case quoted
    with assms(1) obtain s1 raw where r: "read_quoted_scalar s = Inr (s1, raw)"
      and f: "finish_scalar s1 raw = Inr s'"
      by (auto simp: scan_token_def split: sum.splits if_splits)
    from read_quoted_scalar_Unread [OF r] finish_scalar_Unread [OF f] show ?thesis by simp
  next
    case plain
    with assms(1) obtain s1 raw where r: "read_unquoted s [] = Inr (s1, raw)"
      and f: "finish_scalar s1 raw = Inr s'"
      by (auto simp: scan_token_def split: sum.splits if_splits)
    show ?thesis
    proof (cases "Peek s 0 = Some (CHR '':'')")
      case True
      with r assms(2) have "s1 = s" by (subst (asm) read_unquoted.simps) simp
      with True assms(2) finish_scalar_Unread [OF f] show ?thesis by simp
    next
      case False
      with plain assms have "Unread s1 < Unread s"
        by (intro read_unquoted_progress [OF r]) simp
      with finish_scalar_Unread [OF f] show ?thesis by simp
    qed
  qed
qed

function Tokenize_loop :: "parser \<Rightarrow> exn + parser" where
  "Tokenize_loop s =
     (if Unread s > 0 then
        (case SkipToNextToken s of
           Inl e \<Rightarrow> Inl e
         | Inr s1 \<Rightarrow>
            if Unread s1 = 0 then Inr s1
            else (case scan_token s1 of Inl e \<Rightarrow> Inl e | Inr s2 \<Rightarrow> Tokenize_loop s2))
      else Inr s)"
  by pat_completeness auto
termination
proof (relation "measure Unread", goal_cases)
  case 1
  show ?case by simp
next
  case (2 s s1 s2)
  from SkipToNextToken_Unread [OF 2(2)] 2(3) scan_token_Unread [OF 2(4)]
  show ?case by simp
qed

declare Tokenize_loop.simps [simp del]

text \<open>
  \<open>Tokenize\<close>: the first token is \<open>{Token::DICT_START, "", 0}\<close>, with \<open>line\<close> and \<open>col\<close>
  value-initialised; the last is a \<open>DICT_END\<close> at the final position.
\<close>

definition Tokenize :: "parser \<Rightarrow> exn + parser" where
  "Tokenize s =
     (case Tokenize_loop
             (s\<lparr>tokens := tokens s @
                  [\<lparr>tok_type = DICT_START, tok_value = [], tok_pos = 0, tok_line = 0, tok_col = 0\<rparr>]\<rparr>) of
        Inl e \<Rightarrow> Inl e
      | Inr s1 \<Rightarrow> Inr (push_token DICT_END [] s1))"

definition FixEncoding :: "string \<Rightarrow> string" where
  "FixEncoding buf =
     (if length buf < 3 then buf
      else if buf ! 0 = CHR 0xEF \<and> buf ! 1 = CHR 0xBB \<and> buf ! 2 = CHR 0xBF then drop 3 buf
      else buf)"

definition new_parser :: "string \<Rightarrow> parser" where
  "new_parser buf = \<lparr>buffer = buf, readPos = 0, line = 1, column = 0, tokens = []\<rparr>"

subsection \<open>\<open>Parse\<close>\<close>

text \<open>
  \<open>Parse (tok)\<close> takes the iterator by reference; the model takes the tokens from \<open>tok\<close>
  to \<open>tokens.end ()\<close> and returns the node and the tokens from where \<open>tok\<close> is left.
  Reading \<open>tok->type\<close> at \<open>end ()\<close> and \<open>++tok\<close> at \<open>end ()\<close> are \<open>Undefined\<close>.
  \<open>Parse_list\<close> and \<open>Parse_dict\<close> are the two \<open>while\<close> loops with \<open>list\<close> and \<open>dict\<close>;
  \<open>new Node (Parse (tok))\<close> is initialised by the returned node itself.
\<close>

function Parse :: "Token list \<Rightarrow> exn + Node \<times> Token list"
  and Parse_list :: "Token list \<Rightarrow> Node option list \<Rightarrow> exn + Node option list \<times> Token list"
  and Parse_dict :: "Token list \<Rightarrow> Node option cmap \<Rightarrow> exn + Node option cmap \<times> Token list"
where
  "Parse [] = Inl Undefined"
| "Parse (tok # rest) =
     (case tok_type tok of
        SCALAR_TOKEN \<Rightarrow> Inr (ValueScalar (tok_value tok), rest)
      | ARRAY_START \<Rightarrow>
         (case Parse_list rest [] of
            Inl e \<Rightarrow> Inl e
          | Inr (list, toks) \<Rightarrow>
             (case toks of
                [] \<Rightarrow> Inl Undefined
              | end_tok # toks' \<Rightarrow> Inr (ValueList list, toks')))
      | DICT_START \<Rightarrow>
         (case Parse_dict rest [] of
            Inl e \<Rightarrow> Inl e
          | Inr (dict, toks) \<Rightarrow>
             (case toks of
                [] \<Rightarrow> Inl Undefined
              | end_tok # toks' \<Rightarrow> Inr (ValueDict dict, toks')))
      | _ \<Rightarrow> Inl (Error ''Unexpected character'' (tok_pos tok) (tok_line tok) (tok_col tok)))"
| "Parse_list [] list = Inr (list, [])"
| "Parse_list (tok # rest) list =
     (if tok_type tok = ARRAY_END then Inr (list, tok # rest)
      else (case Parse (tok # rest) of
              Inl e \<Rightarrow> Inl e
            | Inr (n, toks) \<Rightarrow> Parse_list toks (list @ [Some n])))"
| "Parse_dict [] dict = Inr (dict, [])"
| "Parse_dict (tok # rest) dict =
     (if tok_type tok = DICT_END then Inr (dict, tok # rest)
      else if tok_type tok \<noteq> KEY
      then Inl (Error ''key expected'' (tok_pos tok) (tok_line tok) (tok_col tok))
      else (case Parse rest of
              Inl e \<Rightarrow> Inl e
            | Inr (n, toks) \<Rightarrow> Parse_dict toks (map_insert (tok_value tok) (Some n) dict)))"
  by pat_completeness auto

text \<open>
  Where \<open>Parse\<close> returns a node it has consumed at least one token, and the loops never
  give tokens back: the facts behind the termination of the three functions.
\<close>

lemma Parse_consumes:
  "Parse_Parse_list_Parse_dict_dom (Inl toks) \<Longrightarrow>
     (\<forall>n toks'. Parse toks = Inr (n, toks') \<longrightarrow> length toks' < length toks)"
  "Parse_Parse_list_Parse_dict_dom (Inr (Inl (toks1, l))) \<Longrightarrow>
     (\<forall>l' toks'. Parse_list toks1 l = Inr (l', toks') \<longrightarrow> length toks' \<le> length toks1)"
  "Parse_Parse_list_Parse_dict_dom (Inr (Inr (toks2, d))) \<Longrightarrow>
     (\<forall>d' toks'. Parse_dict toks2 d = Inr (d', toks') \<longrightarrow> length toks' \<le> length toks2)"
proof (induction toks and toks1 l and toks2 d rule: Parse_Parse_list_Parse_dict.pinduct)
  case 1
  then show ?case by (simp add: Parse.psimps)
next
  case (2 tok rest)
  show ?case
  proof (intro allI impI)
    fix n toks'
    assume res: "Parse (tok # rest) = Inr (n, toks')"
    show "length toks' < length (tok # rest)"
    proof (cases "tok_type tok")
      case ARRAY_START
      with res 2(1) obtain l' toks where pl: "Parse_list rest [] = Inr (l', toks)"
        and toks: "toks \<noteq> []" "toks' = tl toks"
        by (auto simp: Parse.psimps split: sum.splits list.splits)
      from 2(2) [OF ARRAY_START] pl have "length toks \<le> length rest" by blast
      with toks show ?thesis by (cases toks) simp_all
    next
      case DICT_START
      with res 2(1) obtain d' toks where pl: "Parse_dict rest [] = Inr (d', toks)"
        and toks: "toks \<noteq> []" "toks' = tl toks"
        by (auto simp: Parse.psimps split: sum.splits list.splits)
      from 2(3) [OF DICT_START] pl have "length toks \<le> length rest" by blast
      with toks show ?thesis by (cases toks) simp_all
    next
      case SCALAR_TOKEN
      with res 2(1) show ?thesis by (simp add: Parse.psimps)
    next
      case ARRAY_END
      with res 2(1) show ?thesis by (simp add: Parse.psimps)
    next
      case DICT_END
      with res 2(1) show ?thesis by (simp add: Parse.psimps)
    next
      case KEY
      with res 2(1) show ?thesis by (simp add: Parse.psimps)
    qed
  qed
next
  case (3 list)
  then show ?case by (simp add: Parse_list.psimps)
next
  case (4 tok rest list)
  show ?case
  proof (intro allI impI)
    fix l' toks'
    assume res: "Parse_list (tok # rest) list = Inr (l', toks')"
    show "length toks' \<le> length (tok # rest)"
    proof (cases "tok_type tok = ARRAY_END")
      case True
      with res 4(1) show ?thesis by (simp add: Parse_list.psimps)
    next
      case False
      with res 4(1) obtain n toks where p: "Parse (tok # rest) = Inr (n, toks)"
        and rec: "Parse_list toks (list @ [Some n]) = Inr (l', toks')"
        by (auto simp: Parse_list.psimps split: sum.splits)
      from 4(2) [OF False] p have "length toks < length (tok # rest)" by blast
      moreover from 4(3) [OF False p refl] rec have "length toks' \<le> length toks" by blast
      ultimately show ?thesis by simp
    qed
  qed
next
  case (5 dict)
  then show ?case by (simp add: Parse_dict.psimps)
next
  case (6 tok rest dict)
  show ?case
  proof (intro allI impI)
    fix d' toks'
    assume res: "Parse_dict (tok # rest) dict = Inr (d', toks')"
    show "length toks' \<le> length (tok # rest)"
    proof (cases "tok_type tok = DICT_END")
      case True
      with res 6(1) show ?thesis by (simp add: Parse_dict.psimps)
    next
      case False
      with res 6(1) have key: "\<not> tok_type tok \<noteq> KEY"
        by (auto simp: Parse_dict.psimps split: if_splits)
      with False res 6(1) obtain n toks where p: "Parse rest = Inr (n, toks)"
        and rec: "Parse_dict toks (map_insert (tok_value tok) (Some n) dict) = Inr (d', toks')"
        by (auto simp: Parse_dict.psimps split: sum.splits)
      from 6(2) [OF False key] p have "length toks < length rest" by blast
      moreover from 6(3) [OF False key p refl] rec have "length toks' \<le> length toks" by blast
      ultimately show ?thesis by simp
    qed
  qed
qed

lemma Parse_dom_total: "All Parse_Parse_list_Parse_dict_dom"
proof (relation "measure (\<lambda>x. case x of Inl toks \<Rightarrow> 2 * length toks
                                   | Inr (Inl (toks, l)) \<Rightarrow> 2 * length toks + 1
                                   | Inr (Inr (toks, d)) \<Rightarrow> 2 * length toks + 1)", goal_cases)
  case 1
  show ?case by simp
next
  case (2 tok rest)
  show ?case by simp
next
  case (3 tok rest)
  show ?case by simp
next
  case (4 tok rest list)
  show ?case by simp
next
  case (5 tok rest list b x y)
  from Parse_consumes(1) [OF 5(4)] 5(2,3) have "length y < length (tok # rest)" by auto
  then show ?case by simp
next
  case (6 tok rest dict)
  show ?case by simp
next
  case (7 tok rest dict b x y)
  from Parse_consumes(1) [OF 7(5)] 7(3,4) have "length y < length rest" by auto
  then show ?case by simp
qed

termination Parse
  by (rule Parse_dom_total)

text \<open>\<open>Parser::Parse ()\<close>: \<open>FixEncoding\<close>, \<open>Tokenize\<close>, then \<open>Parse\<close> from \<open>tokens.begin ()\<close>.\<close>

definition Parser_Parse :: "string \<Rightarrow> exn + Node" where
  "Parser_Parse buf =
     (case Tokenize (new_parser (FixEncoding buf)) of
        Inl e \<Rightarrow> Inl e
      | Inr s \<Rightarrow> (case Parse (tokens s) of Inl e \<Rightarrow> Inl e | Inr (n, rest) \<Rightarrow> Inr n))"

section \<open>The emitter\<close>

text \<open>
  \<open>std::string (count, ' ')\<close> with an \<open>int\<close> count: a negative count converts to a
  \<open>size_t\<close> beyond \<open>max_size ()\<close>, and the constructor throws \<open>std::length_error\<close>.
\<close>

definition spaces :: "int \<Rightarrow> exn + string" where
  "spaces count = (if count < 0 then Inl LengthError else Inr (replicate (nat count) (CHR '' '')))"

text \<open>
  \<open>Emitter::Emit (node, os, indent, isLast)\<close>. The stream \<open>os\<close> is the text written so
  far; the result is the stream afterwards and the exception, if one was thrown (what
  was written before it stays written). \<open>indent\<close> is an \<open>int\<close>, modelled unbounded: it
  grows by one per nesting level. A null \<open>node\<close> fails every type test
  (\<open>if (!this) return false\<close>), as a None node does. \<open>Emit_list\<close> and \<open>Emit_dict\<close>
  are the two \<open>for\<close> loops, from \<open>it\<close> on; \<open>std::next (it) == end ()\<close> is
  \<open>rest = []\<close>.
\<close>

fun Emit :: "Node option \<Rightarrow> string \<Rightarrow> int \<Rightarrow> bool \<Rightarrow> string \<times> exn option"
  and Emit_list :: "Node option list \<Rightarrow> string \<Rightarrow> string \<Rightarrow> int \<Rightarrow> string \<times> exn option"
  and Emit_dict :: "Node option cmap \<Rightarrow> string \<Rightarrow> string \<Rightarrow> int \<Rightarrow> string \<times> exn option"
where
  "Emit None os indent isLast =
     (case spaces (indent * 2) of
        Inl e \<Rightarrow> (os, Some e)
      | Inr indent_str \<Rightarrow> (os, None))"
| "Emit (Some Value) os indent isLast =
     (case spaces (indent * 2) of
        Inl e \<Rightarrow> (os, Some e)
      | Inr indent_str \<Rightarrow> (os, None))"
| "Emit (Some (ValueScalar val)) os indent isLast =
     (case spaces (indent * 2) of
        Inl e \<Rightarrow> (os, Some e)
      | Inr indent_str \<Rightarrow> (os @ [SQUOTE] @ Escape val @ [SQUOTE, NL], None))"
| "Emit (Some (ValueList list)) os indent isLast =
     (case spaces (indent * 2) of
        Inl e \<Rightarrow> (os, Some e)
      | Inr indent_str \<Rightarrow>
         (case Emit_list list indent_str (os @ [CHR ''['', NL]) indent of
            (os', Some e) \<Rightarrow> (os', Some e)
          | (os', None) \<Rightarrow>
             (case spaces ((indent - 1) * 2) of
                Inl e \<Rightarrow> (os', Some e)
              | Inr close_str \<Rightarrow>
                  (os' @ close_str @ (if isLast then [CHR '']'', NL] else [CHR '']'', CHR '','', NL]), None))))"
| "Emit (Some (ValueDict dict)) os indent isLast =
     (case spaces (indent * 2) of
        Inl e \<Rightarrow> (os, Some e)
      | Inr indent_str \<Rightarrow>
         (case Emit_dict dict indent_str (if indent > 0 then os @ [CHR ''{'', NL] else os) indent of
            (os', Some e) \<Rightarrow> (os', Some e)
          | (os', None) \<Rightarrow>
             if indent > 0 then
               (case spaces ((indent - 1) * 2) of
                  Inl e \<Rightarrow> (os', Some e)
                | Inr close_str \<Rightarrow>
                    (os' @ close_str @ (if isLast then [CHR ''}'', NL] else [CHR ''}'', CHR '','', NL]), None))
             else (os', None)))"
| "Emit_list [] indent_str os indent = (os, None)"
| "Emit_list (it # rest) indent_str os indent =
     (case Emit it (os @ indent_str) (indent + 1) (rest = []) of
        (os', Some e) \<Rightarrow> (os', Some e)
      | (os', None) \<Rightarrow> Emit_list rest indent_str os' indent)"
| "Emit_dict [] indent_str os indent = (os, None)"
| "Emit_dict ((key, p) # rest) indent_str os indent =
     (if IsNone p then Emit_dict rest indent_str os indent
      else
        (case Emit p (os @ indent_str @ key @ '': '') (indent + 1) (rest = []) of
           (os', Some e) \<Rightarrow> (os', Some e)
         | (os', None) \<Rightarrow> Emit_dict rest indent_str os' indent))"

text \<open>
  The elements of a sequence in iteration order, each with the value that
  \<open>std::next (it) == end ()\<close> has at it.
\<close>

fun with_last :: "'a list \<Rightarrow> ('a \<times> bool) list" where
  "with_last [] = []"
| "with_last (x # rest) = (x, rest = []) # with_last rest"

text \<open>
  What the loop over a mapping writes at an entry that it does not pass over:
  \<open>os << _indent << it->first << ": "\<close> and then the value, one level deeper.
\<close>

definition entry_text :: "int \<Rightarrow> (string \<times> Node option) \<times> bool \<Rightarrow> string" where
  "entry_text indent e =
     replicate (nat (indent * 2)) (CHR '' '') @ fst (fst e) @ '': ''
       @ fst (Emit (snd (fst e)) [] (indent + 1) (snd e))"

section \<open>Properties of the escaping utilities\<close>

lemma Escape_loop_append: "Escape_loop s res = res @ concat (map escape_switch s)"
  by (induction s arbitrary: res) simp_all

lemma Unescape_loop_escaped:
  "Unescape_loop (concat (map escape_switch s)) res = res @ s"
proof (induction s arbitrary: res)
  case Nil
  show ?case by simp
next
  case (Cons c s)
  have step: "Unescape_loop (escape_switch c @ t) res = Unescape_loop t (res @ [c])" for t
  proof (cases t)
    case Nil
    then show ?thesis by (simp add: escape_switch_def unescape_switch_def)
  next
    case (Cons d t')
    then show ?thesis by (simp add: escape_switch_def unescape_switch_def)
  qed
  show ?case using Cons.IH [of "res @ [c]"] by (simp add: step)
qed

lemma Unescape_loop_Escape: "Unescape_loop (Escape s) [] = s"
  by (simp add: Escape_def Escape_loop_append Unescape_loop_escaped)

lemma trim_stop_iff: "trim_stop ch \<longleftrightarrow> \<not> isspace ch"
  by (auto simp: trim_stop_def isspace_def)

lemma trim_trailing_id_iff: "trim_trailing s = s \<longleftrightarrow> s = [] \<or> \<not> isspace (last s)"
proof (cases s rule: rev_cases)
  case Nil
  then show ?thesis by (simp add: trim_trailing_def)
next
  case (snoc ys y)
  show ?thesis
  proof (cases "isspace y")
    case True
    have "length (rev (dropWhile (\<lambda>ch. \<not> trim_stop ch) (rev ys))) \<le> length ys"
      by (simp add: length_dropWhile_le [of _ "rev ys", simplified])
    then have "rev (dropWhile (\<lambda>ch. \<not> trim_stop ch) (rev ys)) \<noteq> ys @ [y]"
      by (auto dest: arg_cong [where f = length])
    with True snoc show ?thesis by (simp add: trim_trailing_def trim_stop_iff)
  next
    case False
    with snoc show ?thesis by (simp add: trim_trailing_def trim_stop_iff)
  qed
qed

text \<open>
  C3, as the code has it: \<open>Unescape (Escape s)\<close> is \<open>s\<close> with its trailing white space
  erased, for every string \<open>s\<close>. The substitutions alone are inverse (the loop of
  \<open>Unescape\<close> gives \<open>s\<close> back from \<open>Escape s\<close>), \<open>Escape\<close> trims nothing, and the round
  trip is the identity exactly on the strings that do not end in a white-space
  character.
\<close>

theorem C3_unescape_escape_trims:
  "Unescape (Escape s) = trim_trailing s
   \<and> Unescape_loop (Escape s) [] = s
   \<and> (Unescape (Escape s) = s \<longleftrightarrow> s = [] \<or> \<not> isspace (last s))"
  by (simp add: Unescape_def Unescape_loop_Escape trim_trailing_id_iff)

theorem C3_unescape_escape_witness:
  "Unescape (Escape [CHR ''a'', NL, SQUOTE, BSLASH, CHR ''b'']) = [CHR ''a'', NL, SQUOTE, BSLASH, CHR ''b'']"
  using C3_unescape_escape_trims [of "[CHR ''a'', NL, SQUOTE, BSLASH, CHR ''b'']"]
  by (simp add: isspace_def trim_trailing_def trim_stop_def)

text \<open>
  C3 as the specification states it fails: the string \<open>"a\n"\<close> contains a newline, and
  the round trip returns \<open>"a"\<close>.
\<close>

theorem C3_roundtrip_counterexample:
  "Unescape (Escape [CHR ''a'', NL]) = [CHR ''a''] \<and> Unescape (Escape [CHR ''a'', NL]) \<noteq> [CHR ''a'', NL]"
  by (simp add: Unescape_def Escape_def escape_switch_def unescape_switch_def
      trim_trailing_def trim_stop_def isspace_def)

section \<open>Properties of the conversions\<close>

lemma ToNumber_default_seven:
  "ToNumber_default conv (Some (ValueScalar ''seven'')) d = Inl (Error0 ''Not a number'')"
  by (simp add: stod_def number_length_def mantissa_length_def isspace_def isdigit_def
      isxdigit_def tolower_def)

text \<open>
  C2, as the code has it: \<open>ToNumber (d)\<close> returns \<open>d\<close> and raises nothing on every node
  that is not a scalar (a None node, a list, a mapping) and on an absent one (a null
  \<open>this\<close>). On a scalar the default is not used: the call is the strict \<open>ToNumber ()\<close>,
  which raises \<open>Error ("Not a number")\<close> when \<open>std::stod\<close> converts nothing or leaves
  text unread, and returns the number otherwise. (In the closed instances below the
  value of a numeric text is the text itself.)
\<close>

theorem C2_ToNumber_default:
  "(GetType n \<noteq> SCALAR \<longrightarrow> ToNumber_default conv n d = Inr d)
   \<and> ToNumber_default conv (Some (ValueScalar val)) d = ToNumber conv (Some (ValueScalar val))
   \<and> (stod conv val = Inl InvalidArgument \<longrightarrow>
        ToNumber_default conv (Some (ValueScalar val)) d = Inl (Error0 ''Not a number''))
   \<and> (stod conv val = Inr (r, idx) \<and> idx < length val \<longrightarrow>
        ToNumber_default conv (Some (ValueScalar val)) d = Inl (Error0 ''Not a number''))
   \<and> (stod conv val = Inr (r, idx) \<and> \<not> idx < length val \<longrightarrow>
        ToNumber_default conv (Some (ValueScalar val)) d = Inr r)"
proof -
  have "ToNumber_default conv n d = Inr d" if "GetType n \<noteq> SCALAR"
  proof (cases n)
    case None
    then show ?thesis by simp
  next
    case (Some m)
    with that show ?thesis by (cases m) simp_all
  qed
  then show ?thesis by simp
qed

theorem C2_ToNumber_default_witness:
  "GetType (Some (ValueList [])) \<noteq> SCALAR
   \<and> ToNumber_default Some (Some (ValueList [])) ''7788'' = Inr ''7788''
   \<and> ToNumber_default Some None ''7788'' = Inr ''7788''
   \<and> stod Some ''seven'' = Inl InvalidArgument
   \<and> ToNumber_default Some (Some (ValueScalar ''seven'')) ''7788'' = Inl (Error0 ''Not a number'')
   \<and> stod Some ''4x'' = Inr (''4'', 1)
   \<and> ToNumber_default Some (Some (ValueScalar ''4x'')) ''7788'' = Inl (Error0 ''Not a number'')
   \<and> stod Some ''42'' = Inr (''42'', 2)
   \<and> ToNumber_default Some (Some (ValueScalar ''42'')) ''7788'' = Inr ''42''"
proof -
  have s1: "stod Some ''seven'' = Inl InvalidArgument"
    and s2: "stod Some ''4x'' = Inr (''4'', 1)"
    and s3: "stod Some ''42'' = Inr (''42'', 2)"
    by code_simp+
  from C2_ToNumber_default [of "Some (ValueList [])" Some "''7788''" "''seven''"]
    C2_ToNumber_default [of None Some "''7788''" "''4x''" "''4''" 1]
    C2_ToNumber_default [of None Some "''7788''" "''42''" "''42''" 2]
    s1 s2 s3
  show ?thesis by simp
qed

text \<open>
  C2 as the specification states it fails on a scalar that is not a number: \<open>ToNumber (d)\<close>
  on the scalar \<open>seven\<close> raises \<open>Error ("Not a number")\<close>, whatever the default (and
  whatever value \<open>std::stod\<close> would give to other texts: see \<open>ToNumber_default_seven\<close>).
\<close>

theorem C2_ToNumber_default_counterexample:
  "ToNumber_default Some (Some (ValueScalar ''seven'')) ''7788'' = Inl (Error0 ''Not a number'')
   \<and> ToNumber_default Some (Some (ValueScalar ''seven'')) ''7788'' \<noteq> Inr ''7788''"
  unfolding ToNumber_default_seven by simp

text \<open>
  C6: the strict \<open>ToBool ()\<close> on the scalars \<open>true\<close> and \<open>yes\<close> returns true, on \<open>false\<close>
  and \<open>no\<close> false, and on every other scalar it raises \<open>Error ("Not a bool")\<close>; each of
  the five strict conversions raises \<open>Error ("Invalid cast")\<close> on a None node.
\<close>

theorem C6_strict_conversions:
  "ToBool (Some (ValueScalar ''true'')) = Inr True
   \<and> ToBool (Some (ValueScalar ''yes'')) = Inr True
   \<and> ToBool (Some (ValueScalar ''false'')) = Inr False
   \<and> ToBool (Some (ValueScalar ''no'')) = Inr False
   \<and> (val \<noteq> ''true'' \<and> val \<noteq> ''yes'' \<and> val \<noteq> ''false'' \<and> val \<noteq> ''no''
        \<longrightarrow> ToBool (Some (ValueScalar val)) = Inl (Error0 ''Not a bool''))
   \<and> (GetType (Some n) = NONE \<longrightarrow>
        ToBool (Some n) = Inl (Error0 ''Invalid cast'')
        \<and> ToNumber conv (Some n) = Inl (Error0 ''Invalid cast'')
        \<and> ToString (Some n) = Inl (Error0 ''Invalid cast'')
        \<and> ToList (Some n) = Inl (Error0 ''Invalid cast'')
        \<and> ToDict (Some n) = Inl (Error0 ''Invalid cast''))"
  by (cases n) simp_all

theorem C6_strict_conversions_witness:
  "ToBool (Some (ValueScalar ''seven'')) = Inl (Error0 ''Not a bool'')
   \<and> GetType (Some Value) = NONE
   \<and> ToBool (Some Value) = Inl (Error0 ''Invalid cast'')
   \<and> ToNumber (Map.empty :: string \<Rightarrow> int option) (Some Value) = Inl (Error0 ''Invalid cast'')"
  using C6_strict_conversions [of "''seven''" Value "Map.empty :: string \<Rightarrow> int option"]
  by simp

section \<open>Properties of \<open>std::map\<close> as modelled\<close>

lemma map_of_map_assign: "map_of (map_assign k v m) = (map_of m)(k \<mapsto> v)"
  by (induction m) (auto simp: fun_eq_iff)

lemma length_map_assign_new:
  "map_of m k = None \<Longrightarrow> length (map_assign k v m) = Suc (length m)"
  by (induction m) (auto split: if_splits)




lemma set_map_assign: "fst ` set (map_assign k v m) = insert k (fst ` set m)"
proof (induction m)
  case Nil
  show ?case by simp
next
  case (Cons e m)
  then show ?case by (cases e) (simp add: insert_commute)
qed

lemma map_inv_map_assign: "map_inv m \<Longrightarrow> map_inv (map_assign k v m)"
proof (induction m)
  case Nil
  show ?case by (simp add: map_inv_def)
next
  case (Cons e m)
  obtain k' v' where e: "e = (k', v')" by (cases e)
  from Cons.prems have tl: "map_inv m" and hd: "\<forall>x \<in> fst ` set m. k' < x"
    by (auto simp: map_inv_def e)
  show ?case
  proof (cases "k < k'")
    case True
    with Cons.prems show ?thesis by (auto simp: map_inv_def e)
  next
    case False
    show ?thesis
    proof (cases "k = k'")
      case True
      with Cons.prems show ?thesis by (auto simp: map_inv_def e)
    next
      case ne: False
      with False have lt: "k' < k" by simp
      have "\<forall>x \<in> fst ` set (map_assign k v m). k' < x"
        using hd lt unfolding set_map_assign by simp
      with Cons.IH [OF tl] False ne show ?thesis
        by (simp add: map_inv_def e)
    qed
  qed
qed

lemma set_map_insert: "fst ` set (map_insert k v m) = insert k (fst ` set m)"
proof (induction m)
  case Nil
  show ?case by simp
next
  case (Cons e m)
  then show ?case by (cases e) (simp add: insert_commute insert_absorb)
qed

lemma map_inv_map_insert: "map_inv m \<Longrightarrow> map_inv (map_insert k v m)"
proof (induction m)
  case Nil
  show ?case by (simp add: map_inv_def)
next
  case (Cons e m)
  obtain k' v' where e: "e = (k', v')" by (cases e)
  from Cons.prems have tl: "map_inv m" and hd: "\<forall>x \<in> fst ` set m. k' < x"
    by (auto simp: map_inv_def e)
  show ?case
  proof (cases "k < k'")
    case True
    with Cons.prems show ?thesis by (auto simp: map_inv_def e)
  next
    case False
    show ?thesis
    proof (cases "k = k'")
      case True
      with Cons.prems show ?thesis by (auto simp: map_inv_def e)
    next
      case ne: False
      with False have lt: "k' < k" by simp
      have "\<forall>x \<in> fst ` set (map_insert k v m). k' < x"
        using hd lt unfolding set_map_insert by simp
      with Cons.IH [OF tl] False ne show ?thesis
        by (simp add: map_inv_def e)
    qed
  qed
qed

text \<open>\<open>insert\<close> keeps the entry of a key that is present: the first one inserted stays.\<close>

lemma map_insert_present:
  "map_inv m \<Longrightarrow> k \<in> fst ` set m \<Longrightarrow> map_insert k v m = m"
proof (induction m)
  case Nil
  then show ?case by simp
next
  case (Cons e m)
  obtain k' v' where e: "e = (k', v')" by (cases e)
  from Cons.prems(1) have tl: "map_inv m" and hd: "\<forall>x \<in> fst ` set m. k' < x"
    by (auto simp: map_inv_def e)
  show ?case
  proof (cases "k = k'")
    case True
    then show ?thesis by (simp add: e)
  next
    case False
    with Cons.prems(2) have mem: "k \<in> fst ` set m" by (simp add: e)
    with hd have "k' < k" by blast
    then have "\<not> k < k'" by simp
    with False Cons.IH [OF tl mem] show ?thesis by (simp add: e)
  qed
qed

lemma map_of_map_insert_absent:
  "k \<notin> fst ` set m \<Longrightarrow> map_of (map_insert k v m) = (map_of m)(k \<mapsto> v)"
proof (induction m)
  case Nil
  show ?case by simp
next
  case (Cons e m)
  obtain k' v' where e: "e = (k', v')" by (cases e)
  from Cons.prems have "k \<noteq> k'" and "k \<notin> fst ` set m" by (auto simp: e)
  with Cons.IH show ?case by (auto simp: e fun_eq_iff)
qed

section \<open>Properties of indexing and copying\<close>

text \<open>
  C4: indexing a mapping node by a key that it does not hold returns a reference to the
  entry of that key in the mapping as it is afterwards, where the key is bound to a new
  None node, the size is one more and every other key is bound as before.
\<close>

theorem C4_dict_index_creates:
  assumes "node w = ValueDict val" and "map_of val key = None"
  shows "\<exists>val'. Get_key key w = Inr (DictEntry key, w\<lparr>node := ValueDict val'\<rparr>)
           \<and> map_of val' key = Some (Some Value)
           \<and> length val' = length val + 1
           \<and> (\<forall>k. k \<noteq> key \<longrightarrow> map_of val' k = map_of val k)
           \<and> deref (w\<lparr>node := ValueDict val'\<rparr>) (DictEntry key) = Some Value
           \<and> IsNone (deref (w\<lparr>node := ValueDict val'\<rparr>) (DictEntry key))"
proof -
  let ?val' = "map_assign key (Some Value) val"
  have "Get_key key w = Inr (DictEntry key, w\<lparr>node := ValueDict ?val'\<rparr>)"
    using assms by simp
  moreover have "map_of ?val' key = Some (Some Value)"
    by (simp add: map_of_map_assign)
  moreover have "length ?val' = length val + 1"
    using assms(2) by (simp add: length_map_assign_new)
  moreover have "\<forall>k. k \<noteq> key \<longrightarrow> map_of ?val' k = map_of val k"
    by (simp add: map_of_map_assign)
  moreover have "deref (w\<lparr>node := ValueDict ?val'\<rparr>) (DictEntry key) = Some Value"
    by (simp add: map_of_map_assign)
  ultimately show ?thesis by (intro exI [of _ ?val']) simp
qed

theorem C4_dict_index_creates_witness:
  "\<exists>val'. Get_key ''z'' (world0 (ValueDict [(''a'', Some (ValueScalar ''1''))]))
            = Inr (DictEntry ''z'', world0 (ValueDict val'))
         \<and> map_of val' ''z'' = Some (Some Value) \<and> length val' = 2"
  using C4_dict_index_creates [of "world0 (ValueDict [(''a'', Some (ValueScalar ''1''))])"
      "[(''a'', Some (ValueScalar ''1''))]" "''z''"]
  by (simp add: world0_def)

text \<open>
  C5, as the code has it: indexing a list node of length \<open>n\<close> at \<open>i \<ge> n\<close> returns a
  reference to the one static node of \<open>ValueList::Get\<close> and writes nothing: the list and
  the static are as before. The static is constructed as a None node, and it is a None
  node for as long as it holds that value.
\<close>

theorem C5_list_index_out_of_range:
  assumes "node w = ValueList val" and "length val \<le> idx"
  shows "Get_idx idx w = Inr (StaticNone, w)
         \<and> deref w StaticNone = Some (none w)
         \<and> (none w = Value \<longrightarrow> IsNone (deref w StaticNone))
         \<and> none (world0 (ValueList val)) = Value"
  using assms by (simp add: world0_def)

theorem C5_list_index_out_of_range_witness:
  "Get_idx 5 (world0 (ValueList [Some (ValueScalar ''a''), Some (ValueScalar ''b'')]))
     = Inr (StaticNone, world0 (ValueList [Some (ValueScalar ''a''), Some (ValueScalar ''b'')]))
   \<and> IsNone (deref (world0 (ValueList [Some (ValueScalar ''a''), Some (ValueScalar ''b'')])) StaticNone)"
  using C5_list_index_out_of_range
    [of "world0 (ValueList [Some (ValueScalar ''a''), Some (ValueScalar ''b'')])"
      "[Some (ValueScalar ''a''), Some (ValueScalar ''b'')]" 5]
  by (simp add: world0_def)

text \<open>
  C5 as the specification states it fails: the reference returned is a \<open>Node&\<close> to the
  static, so \<open>list[5] = Node ("x")\<close> on an empty list assigns to the static, and from
  then on indexing any list out of range returns a scalar node.
\<close>

theorem C5_sentinel_counterexample:
  "Get_idx 5 \<lparr>none = Value, node = ValueList []\<rparr> = Inr (StaticNone, \<lparr>none = Value, node = ValueList []\<rparr>)
   \<and> assign StaticNone (ValueScalar ''x'') \<lparr>none = Value, node = ValueList []\<rparr>
       = Inr \<lparr>none = ValueScalar ''x'', node = ValueList []\<rparr>
   \<and> Get_idx 7 \<lparr>none = ValueScalar ''x'', node = ValueList [Some (ValueScalar ''a''), Some (ValueScalar ''b'')]\<rparr>
       = Inr (StaticNone, \<lparr>none = ValueScalar ''x'', node = ValueList [Some (ValueScalar ''a''), Some (ValueScalar ''b'')]\<rparr>)
   \<and> deref \<lparr>none = ValueScalar ''x'', node = ValueList [Some (ValueScalar ''a''), Some (ValueScalar ''b'')]\<rparr> StaticNone
       = Some (ValueScalar ''x'')
   \<and> \<not> IsNone (Some (ValueScalar ''x''))"
  by simp







section \<open>Properties of the emitter\<close>

lemma Emit_list_nested:
  assumes "\<And>p os i isLast. p \<in> set l \<Longrightarrow> 0 < i \<Longrightarrow>
             Emit p os i isLast = (os @ fst (Emit p [] i isLast), None)"
    and "0 \<le> indent"
  shows "Emit_list l ind os indent = (os @ fst (Emit_list l ind [] indent), None)"
  using assms(1)
proof (induction l arbitrary: os)
  case Nil
  show ?case by simp
next
  case (Cons it rest)
  have pos: "0 < indent + 1" using assms(2) by simp
  have mem: "it \<in> set (it # rest)" by simp
  define T where "T = fst (Emit it [] (indent + 1) (rest = []))"
  define R where "R = fst (Emit_list rest ind [] indent)"
  have it: "Emit it o' (indent + 1) (rest = []) = (o' @ T, None)" for o'
    unfolding T_def by (rule Cons.prems [OF mem pos])
  have rest: "Emit_list rest ind o' indent = (o' @ R, None)" for o'
    unfolding R_def
  proof (rule Cons.IH)
    fix p os i isLast
    assume "p \<in> set rest" and i: "0 < (i::int)"
    then have "p \<in> set (it # rest)" by simp
    from Cons.prems [OF this i]
    show "Emit p os i isLast = (os @ fst (Emit p [] i isLast), None)" .
  qed
  show ?case
    by (simp add: it rest)
qed

lemma Emit_dict_nested:
  assumes "\<And>k p os i isLast. (k, p) \<in> set d \<Longrightarrow> 0 < i \<Longrightarrow>
             Emit p os i isLast = (os @ fst (Emit p [] i isLast), None)"
    and "0 \<le> indent"
  shows "Emit_dict d ind os indent = (os @ fst (Emit_dict d ind [] indent), None)"
  using assms(1)
proof (induction d arbitrary: os)
  case Nil
  show ?case by simp
next
  case (Cons e rest)
  obtain key p where e: "e = (key, p)" by (cases e)
  have pos: "0 < indent + 1" using assms(2) by simp
  have mem: "(key, p) \<in> set (e # rest)" by (simp add: e)
  define T where "T = fst (Emit p [] (indent + 1) (rest = []))"
  define R where "R = fst (Emit_dict rest ind [] indent)"
  have it: "Emit p o' (indent + 1) (rest = []) = (o' @ T, None)" for o'
    unfolding T_def by (rule Cons.prems [OF mem pos])
  have rest: "Emit_dict rest ind o' indent = (o' @ R, None)" for o'
    unfolding R_def
  proof (rule Cons.IH)
    fix k p os i isLast
    assume "(k, p) \<in> set rest" and i: "0 < (i::int)"
    then have "(k, p) \<in> set (e # rest)" by simp
    from Cons.prems [OF this i]
    show "Emit p os i isLast = (os @ fst (Emit p [] i isLast), None)" .
  qed
  show ?case
    by (cases "IsNone p") (simp_all add: e it rest)
qed

lemma Emit_null_nested:
  "0 < indent \<Longrightarrow> Emit None os indent isLast = (os @ fst (Emit None [] indent isLast), None)"
  by (simp add: spaces_def)

lemma Emit_Some_nested:
  "0 < indent \<Longrightarrow> Emit (Some n) os indent isLast = (os @ fst (Emit (Some n) [] indent isLast), None)"
proof (induction n arbitrary: os indent isLast)
  case Value
  then show ?case by (simp add: spaces_def)
next
  case (ValueScalar val)
  then show ?case by (simp add: spaces_def)
next
  case (ValueList l)
  have elems: "Emit p o' i last = (o' @ fst (Emit p [] i last), None)"
    if "p \<in> set l" "0 < i" for p o' i last
  proof (cases p)
    case None
    with that show ?thesis by (simp add: spaces_def)
  next
    case (Some m)
    have mo: "m \<in> set_option p" using Some by simp
    show ?thesis unfolding Some by (rule ValueList.IH [OF that(1) mo that(2)])
  qed
  have nn: "0 \<le> indent" using ValueList.prems by simp
  define L where "L = fst (Emit_list l (replicate (nat (indent * 2)) (CHR '' '')) [] indent)"
  have loop: "Emit_list l (replicate (nat (indent * 2)) (CHR '' '')) o' indent = (o' @ L, None)" for o'
    unfolding L_def using elems nn by (rule Emit_list_nested)
  from ValueList.prems show ?case
    by (simp add: spaces_def loop)
next
  case (ValueDict d)
  have elems: "Emit p o' i last = (o' @ fst (Emit p [] i last), None)"
    if "(k, p) \<in> set d" "0 < i" for k p o' i last
  proof (cases p)
    case None
    with that show ?thesis by (simp add: spaces_def)
  next
    case (Some m)
    have sn: "p \<in> Basic_BNFs.snds (k, p)" by simp
    have mo: "m \<in> set_option p" using Some by simp
    show ?thesis unfolding Some by (rule ValueDict.IH [OF that(1) sn mo that(2)])
  qed
  have nn: "0 \<le> indent" using ValueDict.prems by simp
  define L where "L = fst (Emit_dict d (replicate (nat (indent * 2)) (CHR '' '')) [] indent)"
  have loop: "Emit_dict d (replicate (nat (indent * 2)) (CHR '' '')) o' indent = (o' @ L, None)" for o'
    unfolding L_def using elems nn by (rule Emit_dict_nested)
  from ValueDict.prems show ?case
    by (simp add: spaces_def loop)
qed


lemma Emit_nested:
  assumes "0 < indent"
  shows "Emit p os indent isLast = (os @ fst (Emit p [] indent isLast), None)"
proof (cases p)
  case None
  show ?thesis unfolding None using assms by (rule Emit_null_nested)
next
  case (Some n)
  show ?thesis unfolding Some using assms by (rule Emit_Some_nested)
qed

lemma Emit_dict_entries:
  assumes "0 \<le> indent"
  shows "Emit_dict d (replicate (nat (indent * 2)) (CHR '' '')) os indent =
     (os @ concat (map (entry_text indent) (filter (\<lambda>e. \<not> IsNone (snd (fst e))) (with_last d))), None)"
proof (induction d arbitrary: os)
  case Nil
  show ?case by simp
next
  case (Cons e rest)
  obtain key p where e: "e = (key, p)" by (cases e)
  have pos: "0 < indent + 1" using assms by simp
  have it: "Emit p o' (indent + 1) (rest = []) = (o' @ fst (Emit p [] (indent + 1) (rest = [])), None)" for o'
    using pos by (rule Emit_nested)
  show ?case
  proof (cases "IsNone p")
    case True
    then show ?thesis by (simp add: e Cons.IH)
  next
    case False
    have "Emit_dict (e # rest) (replicate (nat (indent * 2)) (CHR '' '')) os indent =
          Emit_dict rest (replicate (nat (indent * 2)) (CHR '' ''))
            (os @ entry_text indent ((key, p), rest = [])) indent"
      using False by (simp add: e entry_text_def it [of "os @ _"])
    then show ?thesis using False by (simp add: e Cons.IH)
  qed
qed

lemma Emit_dict_text:
  assumes "0 \<le> indent"
  shows "Emit (Some (ValueDict d)) os indent isLast =
     (os @ (if 0 < indent then [CHR ''{'', NL] else [])
         @ concat (map (entry_text indent) (filter (\<lambda>e. \<not> IsNone (snd (fst e))) (with_last d)))
         @ (if 0 < indent
            then replicate (nat ((indent - 1) * 2)) (CHR '' '')
                 @ (if isLast then [CHR ''}'', NL] else [CHR ''}'', CHR '','', NL])
            else []),
      None)"
  using assms by (simp add: spaces_def Emit_dict_entries)

lemma with_last_append:
  "ys \<noteq> [] \<Longrightarrow> with_last (xs @ ys) = map (\<lambda>x. (x, False)) xs @ with_last ys"
  by (induction xs) simp_all

lemma map_inv_foldl_insert:
  "map_inv m \<Longrightarrow> map_inv (foldl (\<lambda>m (k, p). map_insert k p m) m kvs)"
proof (induction kvs arbitrary: m)
  case Nil
  then show ?case by simp
next
  case (Cons e kvs)
  obtain k p where e: "e = (k, p)" by (cases e)
  from Cons.prems have "map_inv (map_insert k p m)" by (rule map_inv_map_insert)
  from Cons.IH [OF this] show ?case by (simp add: e)
qed

lemma sorted_entries_split:
  assumes "map_inv d" and "(a, pa) \<in> set d" and "(b, pb) \<in> set d" and "a < b"
  shows "\<exists>xs ys zs. d = xs @ (a, pa) # ys @ (b, pb) # zs"
proof -
  from split_list [OF assms(2)] obtain xs r where d: "d = xs @ (a, pa) # r" by blast
  from assms(1) have "\<forall>x \<in> set xs. fst x < a"
    by (auto simp: map_inv_def d sorted_wrt_append)
  with assms(4) have "(b, pb) \<notin> set xs" by fastforce
  with assms(3) assms(4) have "(b, pb) \<in> set r" by (auto simp: d)
  from split_list [OF this] obtain ys zs where "r = ys @ (b, pb) # zs" by blast
  with d show ?thesis by blast
qed

text \<open>
  C8: at a mapping node, an entry whose value is a None node (or a null pointer) adds
  nothing to the output. The text written is the opening brace (below the top level),
  then what the loop writes at the entries that are not None, in order, then the closing
  line (with a negative \<open>indent\<close> nothing is written at all); so it is the same
  whatever the key of a None entry is, and the same as without that entry when another
  entry follows it. (\<open>isLast\<close> is computed before entries are
  passed over: a None entry in last place leaves the entry before it with
  \<open>isLast = false\<close>.)
\<close>

theorem C8_none_entries_skipped:
  "(0 \<le> indent \<longrightarrow>
      Emit (Some (ValueDict d)) os indent isLast =
        (os @ (if 0 < indent then [CHR ''{'', NL] else [])
            @ concat (map (entry_text indent) (filter (\<lambda>e. \<not> IsNone (snd (fst e))) (with_last d)))
            @ (if 0 < indent
               then replicate (nat ((indent - 1) * 2)) (CHR '' '')
                    @ (if isLast then [CHR ''}'', NL] else [CHR ''}'', CHR '','', NL])
               else []),
         None))
   \<and> (indent < 0 \<longrightarrow> Emit (Some (ValueDict d)) os indent isLast = (os, Some LengthError))
   \<and> (IsNone p \<and> IsNone p' \<longrightarrow>
         Emit (Some (ValueDict (pre @ (key, p) # post))) os indent isLast
         = Emit (Some (ValueDict (pre @ (key', p') # post))) os indent isLast)
   \<and> (IsNone p \<and> post \<noteq> [] \<longrightarrow>
         Emit (Some (ValueDict (pre @ (key, p) # post))) os indent isLast
         = Emit (Some (ValueDict (pre @ post))) os indent isLast)"
proof (cases "0 \<le> indent")
  case True
  have wl: "filter (\<lambda>e. \<not> IsNone (snd (fst e))) (with_last (pre @ (k, q) # post))
            = filter (\<lambda>e. \<not> IsNone (snd (fst e))) (map (\<lambda>x. (x, False)) pre)
              @ filter (\<lambda>e. \<not> IsNone (snd (fst e))) (with_last post)"
    if "IsNone q" for k q
    using that by (simp add: with_last_append)
  have wl': "filter (\<lambda>e. \<not> IsNone (snd (fst e))) (with_last (pre @ post))
            = filter (\<lambda>e. \<not> IsNone (snd (fst e))) (map (\<lambda>x. (x, False)) pre)
              @ filter (\<lambda>e. \<not> IsNone (snd (fst e))) (with_last post)"
    if "post \<noteq> []"
    using that by (simp add: with_last_append)
  have indep: "Emit (Some (ValueDict (pre @ (key, p) # post))) os indent isLast
         = Emit (Some (ValueDict (pre @ (key', p') # post))) os indent isLast"
    if "IsNone p" "IsNone p'"
    unfolding Emit_dict_text [OF True] wl [OF that(1)] wl [OF that(2)] ..
  have removed: "Emit (Some (ValueDict (pre @ (key, p) # post))) os indent isLast
         = Emit (Some (ValueDict (pre @ post))) os indent isLast"
    if "IsNone p" "post \<noteq> []"
    unfolding Emit_dict_text [OF True] wl [OF that(1)] wl' [OF that(2)] ..
  from True Emit_dict_text [OF True, of d os isLast] indep removed show ?thesis by simp
next
  case False
  then have "Emit (Some (ValueDict x)) os indent isLast = (os, Some LengthError)" for x
    by (simp add: spaces_def)
  with False show ?thesis by simp
qed

theorem C8_none_entries_skipped_witness:
  "IsNone (Some Value)
   \<and> Emit (Some (ValueDict [(''a'', Some (ValueScalar ''1'')), (''n'', Some Value), (''z'', Some (ValueScalar ''2''))])) [] 0 True
     = Emit (Some (ValueDict [(''a'', Some (ValueScalar ''1'')), (''z'', Some (ValueScalar ''2''))])) [] 0 True
   \<and> Emit (Some (ValueDict [(''a'', Some (ValueScalar ''1'')), (''n'', Some Value), (''z'', Some (ValueScalar ''2''))])) [] 0 True
     = (''a: '' @ [SQUOTE] @ ''1'' @ [SQUOTE, NL] @ ''z: '' @ [SQUOTE] @ ''2'' @ [SQUOTE, NL], None)"
  using C8_none_entries_skipped [of 0 "[(''a'', Some (ValueScalar ''1'')), (''n'', Some Value), (''z'', Some (ValueScalar ''2''))]"
      "[]" True "Some Value" "Some Value" "[(''a'', Some (ValueScalar ''1''))]" "''n''"
      "[(''z'', Some (ValueScalar ''2''))]" "''n''"]
  by (simp add: entry_text_def spaces_def Escape_def escape_switch_def)

text \<open>
  C7: whatever the order in which the entries were inserted into the \<open>std::map\<close>, its
  keys ascend in the order of \<open>std::string\<close>, \<open>Emit\<close> writes the entries that are not
  None in that order, and of two such entries with keys \<open>a < b\<close> the line of \<open>a\<close> is
  written before the line of \<open>b\<close>.
\<close>

theorem C7_emit_key_order:
  assumes "d = foldl (\<lambda>m (k, p). map_insert k p m) [] kvs"
    and "0 \<le> indent"
  shows "sorted_wrt (<) (map fst d)
   \<and> Emit (Some (ValueDict d)) os indent isLast =
     (os @ (if 0 < indent then [CHR ''{'', NL] else [])
         @ concat (map (entry_text indent) (filter (\<lambda>e. \<not> IsNone (snd (fst e))) (with_last d)))
         @ (if 0 < indent
            then replicate (nat ((indent - 1) * 2)) (CHR '' '')
                 @ (if isLast then [CHR ''}'', NL] else [CHR ''}'', CHR '','', NL])
            else []),
      None)
   \<and> ((a, pa) \<in> set d \<and> (b, pb) \<in> set d \<and> a < b \<and> \<not> IsNone pa \<and> \<not> IsNone pb \<longrightarrow>
        (\<exists>before between after.
           Emit (Some (ValueDict d)) os indent isLast =
             (before @ (replicate (nat (indent * 2)) (CHR '' '') @ a @ '': '')
                @ between @ (replicate (nat (indent * 2)) (CHR '' '') @ b @ '': '') @ after, None)))"
proof -
  have inv: "map_inv d"
    unfolding assms(1) by (rule map_inv_foldl_insert) (simp add: map_inv_def)
  let ?keep = "\<lambda>e. \<not> IsNone (snd (fst e))"
  let ?T = "\<lambda>es. concat (map (entry_text indent) (filter ?keep es))"
  let ?open = "if 0 < indent then [CHR ''{'', NL] else []"
  let ?close = "if 0 < indent
            then replicate (nat ((indent - 1) * 2)) (CHR '' '')
                 @ (if isLast then [CHR ''}'', NL] else [CHR ''}'', CHR '','', NL])
            else []"
  let ?ind = "replicate (nat (indent * 2)) (CHR '' '')"
  have emitted: "Emit (Some (ValueDict d)) os indent isLast = (os @ ?open @ ?T (with_last d) @ ?close, None)"
    using assms(2) by (rule Emit_dict_text)
  have order: "\<exists>before between after.
           Emit (Some (ValueDict d)) os indent isLast =
             (before @ (?ind @ a @ '': '') @ between @ (?ind @ b @ '': '') @ after, None)"
    if mem: "(a, pa) \<in> set d" "(b, pb) \<in> set d" and lt: "a < b"
      and keep: "\<not> IsNone pa" "\<not> IsNone pb"
  proof -
    from sorted_entries_split [OF inv mem lt]
    obtain xs ys zs where d: "d = xs @ (a, pa) # ys @ (b, pb) # zs" by blast
    have "with_last d = map (\<lambda>x. (x, False)) xs @ ((a, pa), False)
             # map (\<lambda>x. (x, False)) ys @ ((b, pb), zs = []) # with_last zs"
      by (simp add: d with_last_append)
    then have "?T (with_last d) =
        ?T (map (\<lambda>x. (x, False)) xs) @ entry_text indent ((a, pa), False)
          @ ?T (map (\<lambda>x. (x, False)) ys) @ entry_text indent ((b, pb), zs = []) @ ?T (with_last zs)"
      using keep by simp
    then have "Emit (Some (ValueDict d)) os indent isLast =
        ((os @ ?open @ ?T (map (\<lambda>x. (x, False)) xs)) @ (?ind @ a @ '': '')
          @ (fst (Emit pa [] (indent + 1) False) @ ?T (map (\<lambda>x. (x, False)) ys))
          @ (?ind @ b @ '': '')
          @ (fst (Emit pb [] (indent + 1) (zs = [])) @ ?T (with_last zs) @ ?close), None)"
      unfolding emitted by (simp add: entry_text_def)
    then show ?thesis by blast
  qed
  from inv emitted order show ?thesis unfolding map_inv_def by blast
qed

theorem C7_emit_key_order_witness:
  "foldl (\<lambda>m (k, p). map_insert k p m) [] [(''b'', Some (ValueScalar ''1'')), (''a'', Some (ValueScalar ''2''))]
     = [(''a'', Some (ValueScalar ''2'')), (''b'', Some (ValueScalar ''1''))]
   \<and> Emit (Some (ValueDict (foldl (\<lambda>m (k, p). map_insert k p m) []
        [(''b'', Some (ValueScalar ''1'')), (''a'', Some (ValueScalar ''2''))]))) [] 0 True
     = (''a: '' @ [SQUOTE] @ ''2'' @ [SQUOTE, NL] @ ''b: '' @ [SQUOTE] @ ''1'' @ [SQUOTE, NL], None)"
  using C7_emit_key_order [of "[(''a'', Some (ValueScalar ''2'')), (''b'', Some (ValueScalar ''1''))]"
      "[(''b'', Some (ValueScalar ''1'')), (''a'', Some (ValueScalar ''2''))]" 0 "[]" True
      "''a''" "Some (ValueScalar ''2'')" "''b''" "Some (ValueScalar ''1'')"]
  by (simp add: entry_text_def spaces_def Escape_def escape_switch_def less_char_def)


section \<open>Properties of the parser\<close>

lemma Parse_shorter: "Parse toks = Inr (n, toks') \<Longrightarrow> length toks' < length toks"
  using Parse_consumes(1) [of toks] Parse_dom_total by blast

text \<open>
  A map filled by \<open>insert\<close> binds each key to the value of the first pair with that key
  (\<^const>\<open>map_of\<close> takes the first pair), after the pairs the map held before.
\<close>

lemma map_of_foldl_map_insert:
  "map_inv m \<Longrightarrow>
   map_of (foldl (\<lambda>m (k, v). map_insert k v m) m es) k =
     (case map_of m k of Some v \<Rightarrow> Some v | None \<Rightarrow> map_of es k)"
proof (induction es arbitrary: m)
  case Nil
  show ?case by (simp split: option.splits)
next
  case (Cons e es)
  obtain k' v' where e: "e = (k', v')" by (cases e)
  have inv: "map_inv (map_insert k' v' m)" using Cons.prems by (rule map_inv_map_insert)
  have step: "map_of (map_insert k' v' m) k =
      (case map_of m k of Some v \<Rightarrow> Some v | None \<Rightarrow> if k = k' then Some v' else None)"
  proof (cases "k' \<in> fst ` set m")
    case True
    with Cons.prems have same: "map_insert k' v' m = m" by (rule map_insert_present)
    from True have "map_of m k' \<noteq> None" by (simp add: map_of_eq_None_iff)
    then show ?thesis by (auto simp: same split: option.splits)
  next
    case False
    then have "map_of m k' = None" by (simp add: map_of_eq_None_iff)
    with False show ?thesis
      by (auto simp: map_of_map_insert_absent split: option.splits)
  qed
  show ?case
    using Cons.IH [OF inv] by (simp add: e step split: option.splits)
qed

text \<open>
  \<open>Parse\<close> reads only the tokens it consumes: where it returns a node, it returns the same
  node from the consumed tokens followed by any others. The loops stop at their closing
  token.
\<close>

lemma Parse_local:
  "\<forall>n rest. Parse toks = Inr (n, rest) \<longrightarrow>
     (\<exists>p. toks = p @ rest \<and> (\<forall>suf. Parse (p @ suf) = Inr (n, suf)))"
  "\<forall>l' e r. Parse_list toks1 l = Inr (l', e # r) \<longrightarrow>
     tok_type e = ARRAY_END \<and>
     (\<exists>p. toks1 = p @ e # r \<and> (\<forall>suf. Parse_list (p @ e # suf) l = Inr (l', e # suf)))"
  "\<forall>d' e r. Parse_dict toks2 d = Inr (d', e # r) \<longrightarrow>
     tok_type e = DICT_END \<and>
     (\<exists>p. toks2 = p @ e # r \<and> (\<forall>suf. Parse_dict (p @ e # suf) d = Inr (d', e # suf)))"
proof (induction toks and toks1 l and toks2 d rule: Parse_Parse_list_Parse_dict.induct)
  case 1
  show ?case by simp
next
  case (2 tok rest0)
  show ?case
  proof (intro allI impI)
    fix n rest
    assume res: "Parse (tok # rest0) = Inr (n, rest)"
    show "\<exists>p. tok # rest0 = p @ rest \<and> (\<forall>suf. Parse (p @ suf) = Inr (n, suf))"
    proof (cases "tok_type tok")
      case SCALAR_TOKEN
      with res have "rest = rest0" "n = ValueScalar (tok_value tok)" by simp_all
      with SCALAR_TOKEN show ?thesis by (intro exI [of _ "[tok]"]) simp
    next
      case ARRAY_START
      with res obtain l' e where pl: "Parse_list rest0 [] = Inr (l', e # rest)"
        and n: "n = ValueList l'"
        by (auto split: sum.splits list.splits)
      from 2(1) [OF ARRAY_START] pl obtain p where p: "rest0 = p @ e # rest"
        and loc: "\<forall>suf. Parse_list (p @ e # suf) [] = Inr (l', e # suf)" by blast
      have "\<forall>suf. Parse ((tok # p @ [e]) @ suf) = Inr (n, suf)"
        using ARRAY_START loc n by simp
      moreover have "tok # rest0 = (tok # p @ [e]) @ rest" using p by simp
      ultimately show ?thesis by blast
    next
      case DICT_START
      with res obtain d' e where pl: "Parse_dict rest0 [] = Inr (d', e # rest)"
        and n: "n = ValueDict d'"
        by (auto split: sum.splits list.splits)
      from 2(2) [OF DICT_START] pl obtain p where p: "rest0 = p @ e # rest"
        and loc: "\<forall>suf. Parse_dict (p @ e # suf) [] = Inr (d', e # suf)" by blast
      have "\<forall>suf. Parse ((tok # p @ [e]) @ suf) = Inr (n, suf)"
        using DICT_START loc n by simp
      moreover have "tok # rest0 = (tok # p @ [e]) @ rest" using p by simp
      ultimately show ?thesis by blast
    next
      case ARRAY_END
      with res show ?thesis by simp
    next
      case DICT_END
      with res show ?thesis by simp
    next
      case KEY
      with res show ?thesis by simp
    qed
  qed
next
  case (3 list)
  show ?case by simp
next
  case (4 tok rest0 list)
  show ?case
  proof (intro allI impI)
    fix l' e r
    assume res: "Parse_list (tok # rest0) list = Inr (l', e # r)"
    show "tok_type e = ARRAY_END \<and>
      (\<exists>p. tok # rest0 = p @ e # r \<and> (\<forall>suf. Parse_list (p @ e # suf) list = Inr (l', e # suf)))"
    proof (cases "tok_type tok = ARRAY_END")
      case True
      with res have "e = tok" "r = rest0" "l' = list" by simp_all
      with True show ?thesis by (intro conjI exI [of _ "[]"]) simp_all
    next
      case False
      with res obtain n toks where p: "Parse (tok # rest0) = Inr (n, toks)"
        and rec: "Parse_list toks (list @ [Some n]) = Inr (l', e # r)"
        by (auto split: sum.splits)
      from 4(1) [OF False] p obtain p1 where p1: "tok # rest0 = p1 @ toks"
        and loc1: "\<forall>suf. Parse (p1 @ suf) = Inr (n, suf)" by blast
      from Parse_shorter [OF p] p1 have "p1 \<noteq> []" by auto
      with p1 obtain p1' where p1': "p1 = tok # p1'" by (cases p1) auto
      from 4(2) [OF False p refl] rec have e: "tok_type e = ARRAY_END"
        and "\<exists>p. toks = p @ e # r \<and> (\<forall>suf. Parse_list (p @ e # suf) (list @ [Some n]) = Inr (l', e # suf))"
        by blast+
      then obtain p2 where p2: "toks = p2 @ e # r"
        and loc2: "\<forall>suf. Parse_list (p2 @ e # suf) (list @ [Some n]) = Inr (l', e # suf)" by blast
      have "Parse_list ((p1 @ p2) @ e # suf) list = Inr (l', e # suf)" for suf
      proof -
        have "Parse (tok # p1' @ p2 @ e # suf) = Inr (n, p2 @ e # suf)"
          using loc1 [rule_format, of "p2 @ e # suf"] by (simp add: p1')
        with False loc2 show ?thesis by (simp add: p1')
      qed
      moreover have "tok # rest0 = (p1 @ p2) @ e # r" using p1 p2 by simp
      ultimately show ?thesis using e by blast
    qed
  qed
next
  case (5 dict)
  show ?case by simp
next
  case (6 tok rest0 dict)
  show ?case
  proof (intro allI impI)
    fix d' e r
    assume res: "Parse_dict (tok # rest0) dict = Inr (d', e # r)"
    show "tok_type e = DICT_END \<and>
      (\<exists>p. tok # rest0 = p @ e # r \<and> (\<forall>suf. Parse_dict (p @ e # suf) dict = Inr (d', e # suf)))"
    proof (cases "tok_type tok = DICT_END")
      case True
      with res have "e = tok" "r = rest0" "d' = dict" by simp_all
      with True show ?thesis by (intro conjI exI [of _ "[]"]) simp_all
    next
      case False
      with res have key: "\<not> tok_type tok \<noteq> KEY" by (auto split: if_splits)
      with False res obtain n toks where p: "Parse rest0 = Inr (n, toks)"
        and rec: "Parse_dict toks (map_insert (tok_value tok) (Some n) dict) = Inr (d', e # r)"
        by (auto split: sum.splits)
      from 6(1) [OF False key] p obtain p1 where p1: "rest0 = p1 @ toks"
        and loc1: "\<forall>suf. Parse (p1 @ suf) = Inr (n, suf)" by blast
      from 6(2) [OF False key p refl] rec have e: "tok_type e = DICT_END"
        and "\<exists>p. toks = p @ e # r \<and>
           (\<forall>suf. Parse_dict (p @ e # suf) (map_insert (tok_value tok) (Some n) dict) = Inr (d', e # suf))"
        by blast+
      then obtain p2 where p2: "toks = p2 @ e # r"
        and loc2: "\<forall>suf. Parse_dict (p2 @ e # suf) (map_insert (tok_value tok) (Some n) dict)
                     = Inr (d', e # suf)" by blast
      have "Parse_dict ((tok # p1 @ p2) @ e # suf) dict = Inr (d', e # suf)" for suf
      proof -
        have "Parse (p1 @ p2 @ e # suf) = Inr (n, p2 @ e # suf)"
          using loc1 [rule_format, of "p2 @ e # suf"] by simp
        with False key loc2 show ?thesis by simp
      qed
      moreover have "tok # rest0 = (tok # p1 @ p2) @ e # r" using p1 p2 by simp
      ultimately show ?thesis using e by blast
    qed
  qed
qed

text \<open>
  The loop over a mapping, on a body made of entries: each a \<open>KEY\<close> token and the tokens
  of its value.
\<close>

lemma Parse_dict_entries:
  assumes "tok_type e = DICT_END"
    and "\<forall>(kt, vts, n) \<in> set segs. tok_type kt = KEY \<and> (\<forall>suf. Parse (vts @ suf) = Inr (n, suf))"
  shows "Parse_dict (concat (map (\<lambda>(kt, vts, n). kt # vts) segs) @ e # rest) dict =
           Inr (foldl (\<lambda>m (k, v). map_insert k v m) dict
                  (map (\<lambda>(kt, vts, n). (tok_value kt, Some n)) segs), e # rest)"
  using assms(2)
proof (induction segs arbitrary: dict)
  case Nil
  show ?case using assms(1) by simp
next
  case (Cons seg segs)
  obtain kt vts n where seg: "seg = (kt, vts, n)" by (cases seg)
  from Cons.prems have key: "tok_type kt = KEY"
    and val: "\<And>suf. Parse (vts @ suf) = Inr (n, suf)"
    and others: "\<forall>(kt, vts, n) \<in> set segs. tok_type kt = KEY \<and> (\<forall>suf. Parse (vts @ suf) = Inr (n, suf))"
    by (simp_all add: seg)
  from Cons.IH [OF others] key val show ?case by (simp add: seg)
qed

text \<open>Every body on which the loop stops at a closing token is made of such entries.\<close>

lemma Parse_dict_decompose:
  "Parse_dict toks dict = Inr (d', e # r) \<Longrightarrow>
   tok_type e = DICT_END \<and>
   (\<exists>segs. toks = concat (map (\<lambda>(kt, vts, n). kt # vts) segs) @ e # r
      \<and> (\<forall>(kt, vts, n) \<in> set segs. tok_type kt = KEY \<and> (\<forall>suf. Parse (vts @ suf) = Inr (n, suf))))"
proof (induction "length toks" arbitrary: toks dict rule: less_induct)
  case less
  show ?case
  proof (cases toks)
    case Nil
    with less.prems show ?thesis by simp
  next
    case (Cons tok rest0)
    show ?thesis
    proof (cases "tok_type tok = DICT_END")
      case True
      with Cons less.prems have "e = tok" "r = rest0" by simp_all
      with True Cons show ?thesis by (intro conjI exI [of _ "[]"]) simp_all
    next
      case False
      with Cons less.prems have key: "tok_type tok = KEY" by (auto split: if_splits)
      with False Cons less.prems obtain n toks1 where p: "Parse rest0 = Inr (n, toks1)"
        and rec: "Parse_dict toks1 (map_insert (tok_value tok) (Some n) dict) = Inr (d', e # r)"
        by (auto split: sum.splits)
      from Parse_local(1) [of rest0] p obtain p1 where p1: "rest0 = p1 @ toks1"
        and loc: "\<forall>suf. Parse (p1 @ suf) = Inr (n, suf)" by blast
      from Parse_shorter [OF p] Cons have "length toks1 < length toks" by simp
      from less.hyps [OF this rec] obtain segs where e: "tok_type e = DICT_END"
        and segs: "toks1 = concat (map (\<lambda>(kt, vts, n). kt # vts) segs) @ e # r"
        and ok: "\<forall>(kt, vts, n) \<in> set segs. tok_type kt = KEY \<and> (\<forall>suf. Parse (vts @ suf) = Inr (n, suf))"
        by blast
      have "toks = concat (map (\<lambda>(kt, vts, n). kt # vts) ((tok, p1, n) # segs)) @ e # r"
        using Cons p1 segs by simp
      moreover have "\<forall>(kt, vts, n) \<in> set ((tok, p1, n) # segs).
          tok_type kt = KEY \<and> (\<forall>suf. Parse (vts @ suf) = Inr (n, suf))"
        using key loc ok by simp
      ultimately show ?thesis using e by blast
    qed
  qed
qed

lemma map_of_first_occurrence:
  "\<forall>e \<in> set xs. fst e \<noteq> k \<Longrightarrow> map_of (xs @ (k, v) # ys) k = Some v"
  by (induction xs) auto

text \<open>
  C1, as the code has it: the loop over a mapping stores each value with
  \<open>dict.insert\<close>, which leaves the entry of a key that is present as it is. For every
  mapping in the token sequence (the opening token, the entries in the order of the
  text, each a \<open>KEY\<close> token followed by the tokens of its value, and the closing token)
  \<open>Parse\<close> returns the mapping node that binds each key to the value of the FIRST entry
  with that key, whatever entries with that key follow and wherever they stand, with the
  keys in ascending order. Every mapping that \<open>Parse\<close> accepts has this form.
\<close>

theorem C1_first_occurrence_wins:
  "(tok_type start = DICT_START \<and> tok_type end_tok = DICT_END
      \<and> (\<forall>(kt, vts, n) \<in> set segs. tok_type kt = KEY \<and> (\<forall>suf. Parse (vts @ suf) = Inr (n, suf)))
    \<longrightarrow> (\<exists>dict'.
           Parse (start # concat (map (\<lambda>(kt, vts, n). kt # vts) segs) @ end_tok # rest)
             = Inr (ValueDict dict', rest)
         \<and> map_inv dict'
         \<and> (\<forall>k. map_of dict' k = map_of (map (\<lambda>(kt, vts, n). (tok_value kt, Some n)) segs) k)
         \<and> (\<forall>xs kt vts n ys.
               segs = xs @ (kt, vts, n) # ys
               \<and> (\<forall>(kt', vts', n') \<in> set xs. tok_value kt' \<noteq> tok_value kt)
               \<longrightarrow> map_of dict' (tok_value kt) = Some (Some n))))
   \<and> (tok_type start = DICT_START \<and> Parse (start # toks) = Inr (parsed_node, rest)
    \<longrightarrow> (\<exists>segs end_tok.
           tok_type end_tok = DICT_END
         \<and> toks = concat (map (\<lambda>(kt, vts, n). kt # vts) segs) @ end_tok # rest
         \<and> (\<forall>(kt, vts, n) \<in> set segs. tok_type kt = KEY \<and> (\<forall>suf. Parse (vts @ suf) = Inr (n, suf)))))"
proof (intro conjI impI)
  assume hyp: "tok_type start = DICT_START \<and> tok_type end_tok = DICT_END
      \<and> (\<forall>(kt, vts, n) \<in> set segs. tok_type kt = KEY \<and> (\<forall>suf. Parse (vts @ suf) = Inr (n, suf)))"
  let ?es = "map (\<lambda>(kt, vts, n). (tok_value kt, Some n)) segs"
  let ?d = "foldl (\<lambda>m (k, v). map_insert k v m) [] ?es"
  have empty: "map_inv ([] :: Node option cmap)" by (simp add: map_inv_def)
  from hyp have loop: "Parse_dict (concat (map (\<lambda>(kt, vts, n). kt # vts) segs) @ end_tok # rest) []
      = Inr (?d, end_tok # rest)"
    by (intro Parse_dict_entries) simp_all
  have parsed: "Parse (start # concat (map (\<lambda>(kt, vts, n). kt # vts) segs) @ end_tok # rest)
      = Inr (ValueDict ?d, rest)"
    using hyp loop by simp
  have inv: "map_inv ?d" using empty by (rule map_inv_foldl_insert)
  have lookup: "map_of ?d k = map_of ?es k" for k
    using map_of_foldl_map_insert [OF empty, of ?es k] by simp
  have first: "map_of ?d (tok_value kt) = Some (Some n)"
    if split: "segs = xs @ (kt, vts, n) # ys"
      and fresh: "\<forall>(kt', vts', n') \<in> set xs. tok_value kt' \<noteq> tok_value kt"
    for xs kt vts n ys
  proof -
    have "?es = map (\<lambda>(kt, vts, n). (tok_value kt, Some n)) xs
              @ (tok_value kt, Some n) # map (\<lambda>(kt, vts, n). (tok_value kt, Some n)) ys"
      by (simp add: split)
    moreover have "\<forall>e \<in> set (map (\<lambda>(kt, vts, n). (tok_value kt, Some n)) xs). fst e \<noteq> tok_value kt"
      using fresh by auto
    ultimately have "map_of ?es (tok_value kt) = Some (Some n)"
      by (simp only: map_of_first_occurrence)
    then show ?thesis by (simp only: lookup)
  qed
  show "\<exists>dict'.
           Parse (start # concat (map (\<lambda>(kt, vts, n). kt # vts) segs) @ end_tok # rest)
             = Inr (ValueDict dict', rest)
         \<and> map_inv dict'
         \<and> (\<forall>k. map_of dict' k = map_of (map (\<lambda>(kt, vts, n). (tok_value kt, Some n)) segs) k)
         \<and> (\<forall>xs kt vts n ys.
               segs = xs @ (kt, vts, n) # ys
               \<and> (\<forall>(kt', vts', n') \<in> set xs. tok_value kt' \<noteq> tok_value kt)
               \<longrightarrow> map_of dict' (tok_value kt) = Some (Some n))"
    using parsed inv lookup first by (intro exI [of _ ?d]) blast
next
  assume hyp: "tok_type start = DICT_START \<and> Parse (start # toks) = Inr (parsed_node, rest)"
  then obtain d' e where loop: "Parse_dict toks [] = Inr (d', e # rest)"
    by (auto split: sum.splits list.splits)
  from Parse_dict_decompose [OF loop]
  show "\<exists>segs end_tok.
           tok_type end_tok = DICT_END
         \<and> toks = concat (map (\<lambda>(kt, vts, n). kt # vts) segs) @ end_tok # rest
         \<and> (\<forall>(kt, vts, n) \<in> set segs. tok_type kt = KEY \<and> (\<forall>suf. Parse (vts @ suf) = Inr (n, suf)))"
    by blast
qed


theorem C1_first_occurrence_wins_witness:
  "(\<forall>suf. Parse ([\<lparr>tok_type = SCALAR_TOKEN, tok_value = ''1'', tok_pos = 9, tok_line = 2, tok_col = 4\<rparr>] @ suf) = Inr (ValueScalar ''1'', suf))
   \<and> Parse
       [\<lparr>tok_type = DICT_START, tok_value = [], tok_pos = 0, tok_line = 0, tok_col = 0\<rparr>,
        \<lparr>tok_type = KEY, tok_value = ''b'', tok_pos = 1, tok_line = 1, tok_col = 1\<rparr>,
        \<lparr>tok_type = SCALAR_TOKEN, tok_value = ''0'', tok_pos = 4, tok_line = 1, tok_col = 4\<rparr>,
        \<lparr>tok_type = KEY, tok_value = ''a'', tok_pos = 6, tok_line = 2, tok_col = 1\<rparr>,
        \<lparr>tok_type = SCALAR_TOKEN, tok_value = ''1'', tok_pos = 9, tok_line = 2, tok_col = 4\<rparr>,
        \<lparr>tok_type = KEY, tok_value = ''a'', tok_pos = 11, tok_line = 3, tok_col = 1\<rparr>,
        \<lparr>tok_type = SCALAR_TOKEN, tok_value = ''2'', tok_pos = 14, tok_line = 3, tok_col = 4\<rparr>,
        \<lparr>tok_type = DICT_END, tok_value = [], tok_pos = 15, tok_line = 4, tok_col = 0\<rparr>]
     = Inr (ValueDict [(''a'', Some (ValueScalar ''1'')), (''b'', Some (ValueScalar ''0''))], [])
   \<and> map_of [(''a'', Some (ValueScalar ''1'')), (''b'', Some (ValueScalar ''0''))] ''a''
       = Some (Some (ValueScalar ''1''))"
  using C1_first_occurrence_wins
    [where start = "\<lparr>tok_type = DICT_START, tok_value = [], tok_pos = 0, tok_line = 0, tok_col = 0\<rparr>"
       and end_tok = "\<lparr>tok_type = DICT_END, tok_value = [], tok_pos = 15, tok_line = 4, tok_col = 0\<rparr>"
       and rest = "[]"
       and segs = "[(\<lparr>tok_type = KEY, tok_value = ''b'', tok_pos = 1, tok_line = 1, tok_col = 1\<rparr>,
         [\<lparr>tok_type = SCALAR_TOKEN, tok_value = ''0'', tok_pos = 4, tok_line = 1, tok_col = 4\<rparr>], ValueScalar ''0''),
        (\<lparr>tok_type = KEY, tok_value = ''a'', tok_pos = 6, tok_line = 2, tok_col = 1\<rparr>,
         [\<lparr>tok_type = SCALAR_TOKEN, tok_value = ''1'', tok_pos = 9, tok_line = 2, tok_col = 4\<rparr>], ValueScalar ''1''),
        (\<lparr>tok_type = KEY, tok_value = ''a'', tok_pos = 11, tok_line = 3, tok_col = 1\<rparr>,
         [\<lparr>tok_type = SCALAR_TOKEN, tok_value = ''2'', tok_pos = 14, tok_line = 3, tok_col = 4\<rparr>], ValueScalar ''2'')]"]
  by simp

text \<open>
  C1 as the specification states it fails: parsing the two lines \<open>a: 1\<close> and \<open>a: 2\<close>
  gives the mapping that binds \<open>a\<close> to \<open>1\<close>, the first value, not to \<open>2\<close>.
\<close>

theorem C1_last_write_wins_counterexample:
  "Parser_Parse (''a: 1'' @ [NL] @ ''a: 2'' @ [NL]) = Inr (ValueDict [(''a'', Some (ValueScalar ''1''))])
   \<and> Parser_Parse (''a: 1'' @ [NL] @ ''a: 2'' @ [NL]) \<noteq> Inr (ValueDict [(''a'', Some (ValueScalar ''2''))])"
  by code_simp


lemma skip_comment_body:
  assumes "buffer s = pre @ body @ stop # rest" and "readPos s = length pre"
    and "\<forall>c \<in> set body. c \<noteq> NL \<and> c \<noteq> CHR ''#'' \<and> c \<noteq> DQUOTE"
    and "stop = NL \<or> stop = CHR ''#'' \<or> stop = DQUOTE"
  shows "skip_comment s =
           Inr (s\<lparr>readPos := length pre + length body, column := column s + length body\<rparr>)"
  using assms(1,2,3)
proof (induction body arbitrary: s pre)
  case Nil
  then have "Peek s 0 = Some stop" by (simp add: Peek_def)
  with assms(4) Nil show ?case by (subst skip_comment.simps) auto
next
  case (Cons c body)
  from Cons.prems have pk: "Peek s 0 = Some c" and un: "Unread s > 0"
    by (simp_all add: Peek_def Unread_def nth_append)
  from Cons.prems(3) have c: "c \<noteq> NL" "c \<noteq> CHR ''#''" "c \<noteq> DQUOTE" by simp_all
  let ?s1 = "s\<lparr>readPos := readPos s + 1, column := column s + 1\<rparr>"
  have sk: "Skip s = Inr ?s1" using pk c by (simp add: Skip_def)
  have "skip_comment ?s1 =
          Inr (?s1\<lparr>readPos := length (pre @ [c]) + length body, column := column ?s1 + length body\<rparr>)"
    using Cons.prems by (intro Cons.IH) simp_all
  then have "skip_comment ?s1 =
          Inr (s\<lparr>readPos := length pre + length (c # body), column := column s + length (c # body)\<rparr>)"
    by simp
  with pk un c sk show ?case by (subst skip_comment.simps) simp
qed

lemma skip_quoted_body:
  assumes "buffer s = pre @ body @ stop # rest" and "readPos s = length pre"
    and "\<forall>c \<in> set body. c \<noteq> NL \<and> c \<noteq> DQUOTE"
    and "stop = NL \<or> stop = DQUOTE"
  shows "skip_quoted s =
           Inr (s\<lparr>readPos := length pre + length body, column := column s + length body\<rparr>)"
  using assms(1,2,3)
proof (induction body arbitrary: s pre)
  case Nil
  then have "Peek s 0 = Some stop" by (simp add: Peek_def)
  with assms(4) Nil show ?case by (subst skip_quoted.simps) auto
next
  case (Cons c body)
  from Cons.prems have pk: "Peek s 0 = Some c" and un: "Unread s > 0"
    by (simp_all add: Peek_def Unread_def nth_append)
  from Cons.prems(3) have c: "c \<noteq> NL" "c \<noteq> DQUOTE" by simp_all
  let ?s1 = "s\<lparr>readPos := readPos s + 1, column := column s + 1\<rparr>"
  have sk: "Skip s = Inr ?s1" using pk c by (simp add: Skip_def)
  have "skip_quoted ?s1 =
          Inr (?s1\<lparr>readPos := length (pre @ [c]) + length body, column := column ?s1 + length body\<rparr>)"
    using Cons.prems by (intro Cons.IH) simp_all
  then have "skip_quoted ?s1 =
          Inr (s\<lparr>readPos := length pre + length (c # body), column := column s + length (c # body)\<rparr>)"
    by simp
  with pk un c sk show ?case by (subst skip_quoted.simps) simp
qed

text \<open>
  After a comment, \<open>SkipToNextToken\<close> and the loop of \<open>Tokenize\<close> go on from where the
  comment ended.
\<close>

lemma comment_resume:
  assumes un: "Unread s > 0" and pk: "Peek s 0 = Some (CHR ''#'')"
    and one: "skip_one_comment s = Inr s'"
  shows "SkipToNextToken s = SkipToNextToken s' \<and> Tokenize_loop s = Tokenize_loop s'"
proof -
  have next_token: "SkipToNextToken s = SkipToNextToken s'"
    using pk un one by (subst SkipToNextToken.simps) simp
  let ?step = "\<lambda>r. case r of
         Inl e \<Rightarrow> Inl e
       | Inr s1 \<Rightarrow>
          if Unread s1 = 0 then Inr s1
          else (case scan_token s1 of Inl e \<Rightarrow> Inl e | Inr s2 \<Rightarrow> Tokenize_loop s2)"
  have a: "Tokenize_loop s = ?step (SkipToNextToken s')"
    using un next_token by (subst Tokenize_loop.simps) simp
  have b: "Tokenize_loop s' = ?step (SkipToNextToken s')"
  proof (cases "Unread s' > 0")
    case True
    then show ?thesis by (subst Tokenize_loop.simps) simp
  next
    case False
    then have "SkipToNextToken s' = Inr s'" by (subst SkipToNextToken.simps) simp
    with False show ?thesis by (subst Tokenize_loop.simps) simp
  qed
  from a b next_token show ?thesis by simp
qed

text \<open>The comment text ends at a \<open>'#'\<close> or at a newline: that character is skipped.\<close>

lemma skip_one_comment_plain:
  assumes buf: "buffer s = pre @ CHR ''#'' # body @ stop # rest" and pos: "readPos s = length pre"
    and body: "\<forall>c \<in> set body. c \<noteq> NL \<and> c \<noteq> CHR ''#'' \<and> c \<noteq> DQUOTE"
    and stop: "stop = NL \<or> stop = CHR ''#''"
  shows "skip_one_comment s =
     Inr (if stop = NL
          then s\<lparr>readPos := length pre + length body + 2, line := line s + 1, column := 0\<rparr>
          else s\<lparr>readPos := length pre + length body + 2, column := column s + length body + 2\<rparr>)"
proof -
  define s1 where "s1 = s\<lparr>readPos := readPos s + 1, column := column s + 1\<rparr>"
  define s2 where "s2 = s1\<lparr>readPos := length (pre @ [CHR ''#'']) + length body,
                             column := column s1 + length body\<rparr>"
  let ?s' = "if stop = NL
          then s\<lparr>readPos := length pre + length body + 2, line := line s + 1, column := 0\<rparr>
          else s\<lparr>readPos := length pre + length body + 2, column := column s + length body + 2\<rparr>"
  from buf pos have pk: "Peek s 0 = Some (CHR ''#'')"
    by (simp add: Peek_def nth_append)
  have sk: "Skip s = Inr s1" using pk by (simp add: Skip_def s1_def)
  have sc: "skip_comment s1 = Inr s2"
    unfolding s2_def using buf pos body stop
    by (intro skip_comment_body [where stop = stop and rest = rest]) (auto simp: s1_def)
  have pk2: "Peek s2 0 = Some stop" and un2: "Unread s2 > 0"
    using buf pos by (simp_all add: Peek_def Unread_def nth_append s1_def s2_def)
  have nq: "stop \<noteq> DQUOTE" using stop by auto
  have sk2: "Skip s2 = Inr ?s'"
    using pk2 pos by (simp add: Skip_def) (simp add: s1_def s2_def)
  show ?thesis
    using nq by (simp add: skip_one_comment_def sk sc pk2 un2 sk2)
qed

text \<open>
  The comment text ends at a double quote: the scanner skips on to the next double quote
  or newline and skips that character too.
\<close>

lemma skip_one_comment_quoted:
  assumes buf: "buffer s = pre @ CHR ''#'' # body @ DQUOTE # quoted @ stop # rest"
    and pos: "readPos s = length pre"
    and body: "\<forall>c \<in> set body. c \<noteq> NL \<and> c \<noteq> CHR ''#'' \<and> c \<noteq> DQUOTE"
    and quoted: "\<forall>c \<in> set quoted. c \<noteq> NL \<and> c \<noteq> DQUOTE"
    and stop: "stop = NL \<or> stop = DQUOTE"
  shows "skip_one_comment s =
     Inr (if stop = NL
          then s\<lparr>readPos := length pre + length body + length quoted + 3,
                 line := line s + 1, column := 0\<rparr>
          else s\<lparr>readPos := length pre + length body + length quoted + 3,
                 column := column s + length body + length quoted + 3\<rparr>)"
proof -
  define s1 where "s1 = s\<lparr>readPos := readPos s + 1, column := column s + 1\<rparr>"
  define s2 where "s2 = s1\<lparr>readPos := length (pre @ [CHR ''#'']) + length body,
                             column := column s1 + length body\<rparr>"
  define s3 where "s3 = s2\<lparr>readPos := readPos s2 + 1, column := column s2 + 1\<rparr>"
  define s4 where "s4 = s3\<lparr>readPos := length (pre @ CHR ''#'' # body @ [DQUOTE]) + length quoted,
                             column := column s3 + length quoted\<rparr>"
  let ?s' = "if stop = NL
          then s\<lparr>readPos := length pre + length body + length quoted + 3,
                 line := line s + 1, column := 0\<rparr>
          else s\<lparr>readPos := length pre + length body + length quoted + 3,
                 column := column s + length body + length quoted + 3\<rparr>"
  from buf pos have pk: "Peek s 0 = Some (CHR ''#'')"
    by (simp add: Peek_def nth_append)
  have sk: "Skip s = Inr s1" using pk by (simp add: Skip_def s1_def)
  have sc: "skip_comment s1 = Inr s2"
    unfolding s2_def using buf pos body
    by (intro skip_comment_body [where stop = DQUOTE and rest = "quoted @ stop # rest"])
       (simp_all add: s1_def)
  have pk2: "Peek s2 0 = Some DQUOTE"
    using buf pos by (simp add: Peek_def nth_append s1_def s2_def)
  have sk2: "Skip s2 = Inr s3" using pk2 by (simp add: Skip_def s3_def)
  have sq: "skip_quoted s3 = Inr s4"
    unfolding s4_def using buf pos quoted stop
    by (intro skip_quoted_body [where stop = stop and rest = rest])
       (simp_all add: s1_def s2_def s3_def)
  have pk4: "Peek s4 0 = Some stop" and un4: "Unread s4 > 0"
    using buf pos by (simp_all add: Peek_def Unread_def nth_append s1_def s2_def s3_def s4_def)
  have sk4: "Skip s4 = Inr ?s'"
    using pk4 pos by (simp add: Skip_def) (simp add: s1_def s2_def s3_def s4_def)
  show ?thesis
    by (simp add: skip_one_comment_def sk sc pk2 sk2 sq un4 sk4)
qed


text \<open>
  C10, as the code has it: a comment does not always run to the end of its line. Its
  text ends at the first newline, \<open>'#'\<close> or double quote after the opening \<open>'#'\<close>. At a
  newline or a \<open>'#'\<close> the comment ends with that character: after a second \<open>'#'\<close> that
  no double quote precedes, the rest of the line is scanned as input. At a double quote
  the scanner skips on to the next double quote or newline, and the comment ends with
  that character. In each case \<open>readPos\<close> is left right after the comment, and the scanner
  finds its next token, and the tokenizer its remaining tokens, in the text that follows.
\<close>

theorem C10_comment_end:
  assumes "readPos s = length pre"
    and "\<forall>c \<in> set body. c \<noteq> NL \<and> c \<noteq> CHR ''#'' \<and> c \<noteq> DQUOTE"
  shows
    "(buffer s = pre @ CHR ''#'' # body @ CHR ''#'' # rest \<longrightarrow>
        (\<exists>s'. skip_one_comment s = Inr s'
           \<and> s' = s\<lparr>readPos := length pre + length body + 2, column := column s + length body + 2\<rparr>
           \<and> drop (readPos s') (buffer s') = rest
           \<and> SkipToNextToken s = SkipToNextToken s'
           \<and> Tokenize_loop s = Tokenize_loop s'))
     \<and> (buffer s = pre @ CHR ''#'' # body @ NL # rest \<longrightarrow>
        (\<exists>s'. skip_one_comment s = Inr s'
           \<and> s' = s\<lparr>readPos := length pre + length body + 2, line := line s + 1, column := 0\<rparr>
           \<and> drop (readPos s') (buffer s') = rest
           \<and> SkipToNextToken s = SkipToNextToken s'
           \<and> Tokenize_loop s = Tokenize_loop s'))
     \<and> (buffer s = pre @ CHR ''#'' # body @ DQUOTE # quoted @ stop # rest
          \<and> (\<forall>c \<in> set quoted. c \<noteq> NL \<and> c \<noteq> DQUOTE) \<and> (stop = NL \<or> stop = DQUOTE) \<longrightarrow>
        (\<exists>s'. skip_one_comment s = Inr s'
           \<and> s' = (if stop = NL
                    then s\<lparr>readPos := length pre + length body + length quoted + 3,
                           line := line s + 1, column := 0\<rparr>
                    else s\<lparr>readPos := length pre + length body + length quoted + 3,
                           column := column s + length body + length quoted + 3\<rparr>)
           \<and> drop (readPos s') (buffer s') = rest
           \<and> SkipToNextToken s = SkipToNextToken s'
           \<and> Tokenize_loop s = Tokenize_loop s'))"
proof (intro conjI impI)
  assume buf: "buffer s = pre @ CHR ''#'' # body @ CHR ''#'' # rest"
  let ?s' = "s\<lparr>readPos := length pre + length body + 2, column := column s + length body + 2\<rparr>"
  from buf assms(1) have pk: "Peek s 0 = Some (CHR ''#'')" and un: "Unread s > 0"
    by (simp_all add: Peek_def Unread_def nth_append)
  have one: "skip_one_comment s = Inr ?s'"
    using skip_one_comment_plain [OF buf assms] by simp
  have "drop (readPos ?s') (buffer ?s') = rest" using buf by simp
  with one comment_resume [OF un pk one]
  show "\<exists>s'. skip_one_comment s = Inr s'
           \<and> s' = s\<lparr>readPos := length pre + length body + 2, column := column s + length body + 2\<rparr>
           \<and> drop (readPos s') (buffer s') = rest
           \<and> SkipToNextToken s = SkipToNextToken s'
           \<and> Tokenize_loop s = Tokenize_loop s'"
    by blast
next
  assume buf: "buffer s = pre @ CHR ''#'' # body @ NL # rest"
  let ?s' = "s\<lparr>readPos := length pre + length body + 2, line := line s + 1, column := 0\<rparr>"
  from buf assms(1) have pk: "Peek s 0 = Some (CHR ''#'')" and un: "Unread s > 0"
    by (simp_all add: Peek_def Unread_def nth_append)
  have one: "skip_one_comment s = Inr ?s'"
    using skip_one_comment_plain [OF buf assms] by simp
  have "drop (readPos ?s') (buffer ?s') = rest" using buf by simp
  with one comment_resume [OF un pk one]
  show "\<exists>s'. skip_one_comment s = Inr s'
           \<and> s' = s\<lparr>readPos := length pre + length body + 2, line := line s + 1, column := 0\<rparr>
           \<and> drop (readPos s') (buffer s') = rest
           \<and> SkipToNextToken s = SkipToNextToken s'
           \<and> Tokenize_loop s = Tokenize_loop s'"
    by blast
next
  assume hyp: "buffer s = pre @ CHR ''#'' # body @ DQUOTE # quoted @ stop # rest
          \<and> (\<forall>c \<in> set quoted. c \<noteq> NL \<and> c \<noteq> DQUOTE) \<and> (stop = NL \<or> stop = DQUOTE)"
  then have buf: "buffer s = pre @ CHR ''#'' # body @ DQUOTE # quoted @ stop # rest"
    and quoted: "\<forall>c \<in> set quoted. c \<noteq> NL \<and> c \<noteq> DQUOTE"
    and stop: "stop = NL \<or> stop = DQUOTE"
    by simp_all
  let ?s' = "if stop = NL
                    then s\<lparr>readPos := length pre + length body + length quoted + 3,
                           line := line s + 1, column := 0\<rparr>
                    else s\<lparr>readPos := length pre + length body + length quoted + 3,
                           column := column s + length body + length quoted + 3\<rparr>"
  from buf assms(1) have pk: "Peek s 0 = Some (CHR ''#'')" and un: "Unread s > 0"
    by (simp_all add: Peek_def Unread_def nth_append)
  have one: "skip_one_comment s = Inr ?s'"
    by (rule skip_one_comment_quoted [OF buf assms quoted stop])
  define skipped where "skipped = pre @ CHR ''#'' # body @ DQUOTE # quoted @ [stop]"
  have bf: "buffer ?s' = skipped @ rest" using buf by (simp add: skipped_def)
  have rp: "readPos ?s' = length skipped" by (simp add: skipped_def)
  have "drop (readPos ?s') (buffer ?s') = rest" unfolding bf rp by simp
  with one comment_resume [OF un pk one]
  show "\<exists>s'. skip_one_comment s = Inr s'
           \<and> s' = (if stop = NL
                    then s\<lparr>readPos := length pre + length body + length quoted + 3,
                           line := line s + 1, column := 0\<rparr>
                    else s\<lparr>readPos := length pre + length body + length quoted + 3,
                           column := column s + length body + length quoted + 3\<rparr>)
           \<and> drop (readPos s') (buffer s') = rest
           \<and> SkipToNextToken s = SkipToNextToken s'
           \<and> Tokenize_loop s = Tokenize_loop s'"
    by blast
qed

theorem C10_comment_end_witness:
  "(\<exists>s'. skip_one_comment (new_parser (''# c1 # y: 2'' @ [NL])) = Inr s'
         \<and> readPos s' = 6 \<and> drop (readPos s') (buffer s') = '' y: 2'' @ [NL]
         \<and> Tokenize_loop (new_parser (''# c1 # y: 2'' @ [NL])) = Tokenize_loop s')
   \<and> (\<exists>s'. skip_one_comment (new_parser (''# c1'' @ [NL] @ ''y: 2'' @ [NL])) = Inr s'
         \<and> readPos s' = 5 \<and> line s' = 2 \<and> drop (readPos s') (buffer s') = ''y: 2'' @ [NL])
   \<and> (\<exists>s'. skip_one_comment (new_parser (''# a '' @ [DQUOTE] @ ''b'' @ [DQUOTE] @ '' # y: 2'' @ [NL])) = Inr s'
         \<and> readPos s' = 7 \<and> drop (readPos s') (buffer s') = '' # y: 2'' @ [NL])
   \<and> Parser_Parse (''x: 1 # c1 # y: 2'' @ [NL])
       = Inr (ValueDict [(''x'', Some (ValueScalar ''1'')), (''y'', Some (ValueScalar ''2''))])
   \<and> Parser_Parse (''x: 1 # '' @ [DQUOTE] @ ''q'' @ [DQUOTE] @ '' y: 2'' @ [NL])
       = Inr (ValueDict [(''x'', Some (ValueScalar ''1'')), (''y'', Some (ValueScalar ''2''))])"
proof -
  have parsed: "Parser_Parse (''x: 1 # c1 # y: 2'' @ [NL])
       = Inr (ValueDict [(''x'', Some (ValueScalar ''1'')), (''y'', Some (ValueScalar ''2''))])"
    "Parser_Parse (''x: 1 # '' @ [DQUOTE] @ ''q'' @ [DQUOTE] @ '' y: 2'' @ [NL])
       = Inr (ValueDict [(''x'', Some (ValueScalar ''1'')), (''y'', Some (ValueScalar ''2''))])"
    by code_simp+
  have a: "\<exists>s'. skip_one_comment (new_parser (''# c1 # y: 2'' @ [NL])) = Inr s'
         \<and> readPos s' = 6 \<and> drop (readPos s') (buffer s') = '' y: 2'' @ [NL]
         \<and> Tokenize_loop (new_parser (''# c1 # y: 2'' @ [NL])) = Tokenize_loop s'"
    using C10_comment_end
      [where s = "new_parser (''# c1 # y: 2'' @ [NL])" and pre = "[]" and body = "'' c1 ''"
         and rest = "'' y: 2'' @ [NL]"]
    by (simp add: new_parser_def)
  have b: "\<exists>s'. skip_one_comment (new_parser (''# c1'' @ [NL] @ ''y: 2'' @ [NL])) = Inr s'
         \<and> readPos s' = 5 \<and> line s' = 2 \<and> drop (readPos s') (buffer s') = ''y: 2'' @ [NL]"
    using C10_comment_end
      [where s = "new_parser (''# c1'' @ [NL] @ ''y: 2'' @ [NL])" and pre = "[]" and body = "'' c1''"
         and rest = "''y: 2'' @ [NL]"]
    by (simp add: new_parser_def)
  have c: "\<exists>s'. skip_one_comment (new_parser (''# a '' @ [DQUOTE] @ ''b'' @ [DQUOTE] @ '' # y: 2'' @ [NL])) = Inr s'
         \<and> readPos s' = 7 \<and> drop (readPos s') (buffer s') = '' # y: 2'' @ [NL]"
    using C10_comment_end
      [where s = "new_parser (''# a '' @ [DQUOTE] @ ''b'' @ [DQUOTE] @ '' # y: 2'' @ [NL])"
         and pre = "[]" and body = "'' a ''" and quoted = "''b''" and stop = DQUOTE
         and rest = "'' # y: 2'' @ [NL]"]
    by (simp add: new_parser_def)
  from a b c parsed show ?thesis by blast
qed

text \<open>
  C10 as it is stated fails for a second \<open>'#'\<close> that follows a quoted span: in the line
  \<open>x: 1 # a "b" # y: 2\<close> the comment ends with the closing quote, the second \<open>'#'\<close>
  opens a new comment that runs to the end of the line, and \<open>y: 2\<close> gives no token.
\<close>

theorem C10_second_hash_counterexample:
  "Parser_Parse (''x: 1 # a '' @ [DQUOTE] @ ''b'' @ [DQUOTE] @ '' # y: 2'' @ [NL])
     = Inr (ValueDict [(''x'', Some (ValueScalar ''1''))])
   \<and> Parser_Parse (''x: 1 # a '' @ [DQUOTE] @ ''b'' @ [DQUOTE] @ '' # y: 2'' @ [NL])
     \<noteq> Inr (ValueDict [(''x'', Some (ValueScalar ''1'')), (''y'', Some (ValueScalar ''2''))])"
  by code_simp

end
